theory Spec2Isabelle
  imports Main "HOL-Library.Word"
begin

section \<open>Shared data: time, certificates, errors, faults\<close>

text \<open>
  Instants of \<^verbatim>\<open>time.Time\<close> are points of a linear order; \<^verbatim>\<open>Before\<close> and
  \<^verbatim>\<open>After\<close> are the strict comparisons.
\<close>

type_synonym time = int

text \<open>
  The fields of a parsed \<^verbatim>\<open>x509.Certificate\<close> that the program reads. A slice of
  certificates may be \<^verbatim>\<open>nil\<close>, which is \<open>None\<close> wherever the program tests for it. A
  \<open>Certificate list\<close> is a slice of pointers to parsed certificates; a slice that may
  hold nil pointers is a \<open>Certificate option list\<close>.
\<close>

record Certificate =
  NotBefore :: time
  NotAfter :: time
  UnhandledCriticalExtensions :: "nat list list"
  FingerprintSHA1 :: "8 word list"

datatype InvalidReason =
    NotAuthorizedToSign
  | CertExpired
  | CANotAuthorizedForThisName
  | TooManyIntermediates
  | IncompatibleUsage

text \<open>
  A value of the interface \<^verbatim>\<open>error\<close>: made by \<^verbatim>\<open>errors.New\<close>, the struct
  \<^verbatim>\<open>x509.CertificateInvalidError\<close>, or any error a library hands over, known by its text.
\<close>

datatype error =
    errorString string
  | CertificateInvalidError Certificate InvalidReason
  | libError string

fun InvalidReason_text :: "InvalidReason \<Rightarrow> string" where
  "InvalidReason_text NotAuthorizedToSign = ''x509: certificate is not authorized to sign other certificates''"
| "InvalidReason_text CertExpired = ''x509: certificate has expired or is not yet valid''"
| "InvalidReason_text CANotAuthorizedForThisName = ''x509: a root or intermediate certificate is not authorized to sign in this domain''"
| "InvalidReason_text TooManyIntermediates = ''x509: too many intermediates for path length constraint''"
| "InvalidReason_text IncompatibleUsage = ''x509: certificate specifies an incompatible key usage''"

text \<open>The method \<^verbatim>\<open>Error()\<close> of an error value.\<close>

fun error_Error :: "error \<Rightarrow> string" where
  "error_Error (errorString s) = s"
| "error_Error (CertificateInvalidError c r) = InvalidReason_text r"
| "error_Error (libError s) = s"

text \<open>Run-time panics of the Go program.\<close>

datatype fault =
    NilPointerDereference
  | IndexOutOfRange
  | NegativeWaitGroupCounter
  | UnlockOfUnlockedMutex

text \<open>Reading through a pointer: a nil pointer faults, otherwise the continuation runs.\<close>

definition deref :: "'a option \<Rightarrow> ('a \<Rightarrow> fault + 'b) \<Rightarrow> fault + 'b" where
  "deref p k = (case p of None \<Rightarrow> Inl NilPointerDereference | Some x \<Rightarrow> k x)"

section \<open>Strings\<close>

text \<open>\<^verbatim>\<open>strings.HasPrefix\<close>, \<^verbatim>\<open>strings.HasSuffix\<close>, \<^verbatim>\<open>strings.TrimSuffix\<close>.\<close>

definition HasPrefix :: "string \<Rightarrow> string \<Rightarrow> bool" where
  "HasPrefix s prefix = (length prefix \<le> length s \<and> take (length prefix) s = prefix)"

definition HasSuffix :: "string \<Rightarrow> string \<Rightarrow> bool" where
  "HasSuffix s suffix =
     (length suffix \<le> length s \<and> drop (length s - length suffix) s = suffix)"

definition TrimSuffix :: "string \<Rightarrow> string \<Rightarrow> string" where
  "TrimSuffix s suffix = (if HasSuffix s suffix then take (length s - length suffix) s else s)"

text \<open>
  \<^verbatim>\<open>strings.LastIndex\<close>: the index of the last instance of \<open>substr\<close> in \<open>s\<close>, or
  \<open>-1\<close>. The scan runs from the last position where \<open>substr\<close> fits down to 0.
\<close>

fun LastIndex_scan :: "string \<Rightarrow> string \<Rightarrow> nat \<Rightarrow> int" where
  "LastIndex_scan s substr 0 = (if HasPrefix s substr then 0 else -1)"
| "LastIndex_scan s substr (Suc i) =
     (if HasPrefix (drop (Suc i) s) substr then int (Suc i) else LastIndex_scan s substr i)"

definition LastIndex :: "string \<Rightarrow> string \<Rightarrow> int" where
  "LastIndex s substr =
     (if length s < length substr then -1
      else LastIndex_scan s substr (length s - length substr))"

text \<open>\<^verbatim>\<open>strings.Contains\<close>: \<open>substr\<close> occurs somewhere in \<open>s\<close>.\<close>

fun Contains :: "string \<Rightarrow> string \<Rightarrow> bool" where
  "Contains [] substr = (substr = [])"
| "Contains (c # s) substr = (HasPrefix (c # s) substr \<or> Contains s substr)"

text \<open>\<^verbatim>\<open>strconv.Itoa\<close> on a value that is not negative.\<close>

fun Itoa :: "nat \<Rightarrow> string" where
  "Itoa n =
     (if n < 10 then [''0123456789'' ! n]
      else Itoa (n div 10) @ [''0123456789'' ! (n mod 10)])"

declare Itoa.simps [simp del]

section \<open>Error simplification\<close>

definition stripErrors :: "string list" where
  "stripErrors =
     [''Conversation error'', ''Could not connect'', ''dial tcp'', ''read tcp'', ''write tcp'']"

text \<open>
  The loop of \<^verbatim>\<open>simplifyError\<close> over the remaining prefixes. The slice
  \<^verbatim>\<open>msg[i+2 : len(msg)]\<close> is \<open>drop (i + 2) msg\<close>; it is in range, since \<open>i\<close> is the
  index of an occurrence of the two-byte separator.
\<close>

fun simplifyError_range :: "error \<Rightarrow> string \<Rightarrow> string list \<Rightarrow> error" where
  "simplifyError_range err msg [] = err"
| "simplifyError_range err msg (prefix # rest) =
     (if HasPrefix msg prefix \<and> LastIndex msg '': '' \<noteq> -1
      then errorString (drop (nat (LastIndex msg '': '' + 2)) msg)
      else simplifyError_range err msg rest)"

definition simplifyError :: "error \<Rightarrow> error" where
  "simplifyError err = simplifyError_range err (error_Error err) stripErrors"

section \<open>DNS queries and results\<close>

type_synonym dns_Type = "16 word"

definition TypeA :: dns_Type where "TypeA = 1"
definition TypeMX :: dns_Type where "TypeMX = 15"
definition TypeTLSA :: dns_Type where "TypeTLSA = 52"

definition RcodeSuccess :: int where "RcodeSuccess = 0"
definition RcodeNameError :: int where "RcodeNameError = 3"

record DnsQuery =
  Domain' :: string
  Type :: dns_Type

record DnsResult =
  Results :: "string list"
  Secure :: bool
  Error :: "error option"
  WhyBogus :: "string option"

text \<open>The zero value of the named result \<^verbatim>\<open>result DnsResult\<close>.\<close>

definition DnsResult_zero :: DnsResult where
  "DnsResult_zero = \<lparr>Results = [], Secure = False, Error = None, WhyBogus = None\<rparr>"

text \<open>The resource records the program renders; every other record type is \<open>RR_other\<close>.\<close>

datatype RR =
    RR_MX string
  | RR_A "8 word list"
  | RR_AAAA "8 word list"
  | RR_TLSA "8 word" "8 word" "8 word" string
  | RR_other

text \<open>
  Library functions and tables the program calls and that are not its own:
  \<^verbatim>\<open>net.IP.String\<close>, \<^verbatim>\<open>strings.ToLower\<close>, the table \<^verbatim>\<open>dns.RcodeToString\<close>.
\<close>

record lib =
  IP_String :: "8 word list \<Rightarrow> string"
  ToLower :: "string \<Rightarrow> string"
  RcodeToString :: "int \<rightharpoonup> string"

text \<open>Indexing a Go map of strings: a missing key gives the empty string.\<close>

definition RcodeToString_at :: "lib \<Rightarrow> int \<Rightarrow> string" where
  "RcodeToString_at l rcode = (case RcodeToString l rcode of None \<Rightarrow> [] | Some s \<Rightarrow> s)"

definition DnsResult_append :: "DnsResult \<Rightarrow> string \<Rightarrow> DnsResult" where
  "DnsResult_append result entry = result\<lparr>Results := Results result @ [entry]\<rparr>"

fun appendRR :: "lib \<Rightarrow> DnsResult \<Rightarrow> RR \<Rightarrow> DnsResult" where
  "appendRR l result (RR_MX mx) = DnsResult_append result (ToLower l (TrimSuffix mx ''.''))"
| "appendRR l result (RR_A a) = DnsResult_append result (IP_String l a)"
| "appendRR l result (RR_AAAA a) = DnsResult_append result (IP_String l a)"
| "appendRR l result (RR_TLSA usage selector matchingType certificate) =
     DnsResult_append result
       (Itoa (unat usage) @ '' '' @ Itoa (unat selector) @ '' '' @ Itoa (unat matchingType)
          @ '' '' @ certificate)"
| "appendRR l result RR_other = result"

definition ErrorMessage :: "DnsResult \<Rightarrow> string option" where
  "ErrorMessage result =
     (case DnsResult.Error result of None \<Rightarrow> None | Some e \<Rightarrow> Some (error_Error e))"

text \<open>The reply \<^verbatim>\<open>*dns.Msg\<close> of the Go DNS client and \<^verbatim>\<open>*unbound.Result\<close> of Unbound.\<close>

record dns_Msg =
  Rcode :: int
  Answer :: "RR list"

record unbound_Result =
  Secure :: bool
  WhyBogus :: string
  NxDomain :: bool
  Rcode :: int
  Data :: "8 word list list"
  Rr :: "RR list"

text \<open>
  The two backends, as what they return for a query: the reply pointer (possibly nil) and
  the error of \<^verbatim>\<open>dnsClient.Exchange\<close> and of \<^verbatim>\<open>unboundCtx.Resolve\<close>.
\<close>

record resolver =
  Exchange :: "DnsQuery \<Rightarrow> dns_Msg option \<times> error option"
  Resolve :: "DnsQuery \<Rightarrow> unbound_Result option \<times> error option"

definition lookupDns :: "lib \<Rightarrow> resolver \<Rightarrow> DnsQuery \<Rightarrow> fault + DnsResult" where
  "lookupDns l net query =
     (let result = DnsResult_zero;
          (response, err) = Exchange net query
      in if err \<noteq> None then Inr (result\<lparr>DnsResult.Error := err\<rparr>)
         else deref response (\<lambda>r.
           if dns_Msg.Rcode r = RcodeNameError then Inr (result\<lparr>DnsResult.Error := err\<rparr>)
           else if dns_Msg.Rcode r \<noteq> RcodeSuccess
           then Inr (result\<lparr>DnsResult.Error :=
                       Some (errorString (RcodeToString_at l (dns_Msg.Rcode r)))\<rparr>)
           else Inr (fold (\<lambda>rr res. appendRR l res rr) (Answer r) result)))"

text \<open>
  The loop \<^verbatim>\<open>for i, _ := range response.Data { result.appendRR(response.Rr[i]) }\<close>:
  an index beyond \<open>Rr\<close> panics.
\<close>

fun lookupUnbound_range :: "lib \<Rightarrow> RR list \<Rightarrow> nat list \<Rightarrow> DnsResult \<Rightarrow> fault + DnsResult" where
  "lookupUnbound_range l rrs [] result = Inr result"
| "lookupUnbound_range l rrs (i # rest) result =
     (if i < length rrs then lookupUnbound_range l rrs rest (appendRR l result (rrs ! i))
      else Inl IndexOutOfRange)"

definition lookupUnbound :: "lib \<Rightarrow> resolver \<Rightarrow> DnsQuery \<Rightarrow> fault + DnsResult" where
  "lookupUnbound l net query =
     (let (response, err) = Resolve net query
      in deref response (\<lambda>r.
           let result = DnsResult_zero\<lparr>DnsResult.Secure := unbound_Result.Secure r\<rparr>;
               result = (if unbound_Result.WhyBogus r \<noteq> []
                         then result\<lparr>DnsResult.WhyBogus := Some (unbound_Result.WhyBogus r)\<rparr>
                         else result)
           in if err \<noteq> None \<or> NxDomain r then Inr (result\<lparr>DnsResult.Error := err\<rparr>)
              else if unbound_Result.Rcode r \<noteq> RcodeSuccess
              then Inr (result\<lparr>DnsResult.Error :=
                          Some (errorString (RcodeToString_at l (unbound_Result.Rcode r)))\<rparr>)
              else lookupUnbound_range l (Rr r) [0..<length (Data r)] result))"

definition Lookup :: "lib \<Rightarrow> resolver \<Rightarrow> DnsQuery \<Rightarrow> fault + DnsResult" where
  "Lookup l net query =
     (if Type query = TypeTLSA then lookupUnbound l net query else lookupDns l net query)"

text \<open>A library and two resolvers to evaluate the lookup on.\<close>

definition plain_lib :: lib where
  "plain_lib =
     \<lparr>IP_String = (\<lambda>ip. if ip = [192, 0, 2, 1] then ''192.0.2.1''
                        else if ip = [192, 0, 2, 2] then ''192.0.2.2'' else ''2001:db8::1''),
      ToLower = id,
      RcodeToString = [2 \<mapsto> ''SERVFAIL'', 3 \<mapsto> ''NXDOMAIN'']\<rparr>"

definition nxdomain_resolver :: resolver where
  "nxdomain_resolver =
     \<lparr>Exchange = (\<lambda>q. (Some \<lparr>dns_Msg.Rcode = 3, Answer = []\<rparr>, None)),
      Resolve = (\<lambda>q. (None, Some (libError ''no context'')))\<rparr>"

definition timeout_resolver :: resolver where
  "timeout_resolver =
     \<lparr>Exchange = (\<lambda>q. (None, Some (libError ''read udp 192.0.2.53:53: i/o timeout''))),
      Resolve = (\<lambda>q. (None, Some (libError ''no context'')))\<rparr>"

definition a_records :: resolver where
  "a_records =
     \<lparr>Exchange = (\<lambda>q. (Some \<lparr>dns_Msg.Rcode = 0,
                               Answer = [RR_A [192, 0, 2, 1], RR_A [192, 0, 2, 2]]\<rparr>, None)),
      Resolve = (\<lambda>q. (None, Some (libError ''no context'')))\<rparr>"


section \<open>Certificate validity\<close>

type_synonym ExtKeyUsage = int

definition ExtKeyUsageServerAuth :: ExtKeyUsage where "ExtKeyUsageServerAuth = 1"

record 'pool VerifyOptions =
  CurrentTime :: time
  Intermediates :: 'pool
  Roots :: 'pool

text \<open>
  What the program takes from outside: the clock, and the certificate pools, the chain
  builder and the key-usage filter of the X.509 library. A pool is whatever the library
  makes of it; \<^verbatim>\<open>AddCert\<close> returns the pool with the certificate added.
\<close>

record 'pool x509 =
  Now :: time
  NewCertPool :: 'pool
  SystemRootsPool :: 'pool
  AddCert :: "'pool \<Rightarrow> Certificate \<Rightarrow> 'pool"
  BuildChains :: "Certificate \<Rightarrow> 'pool VerifyOptions \<Rightarrow> Certificate list list \<times> error option"
  FilterChainsByKeyUsage :: "Certificate list list \<Rightarrow> ExtKeyUsage list \<Rightarrow> Certificate list list"

record CertificateValidity =
  Expired :: bool
  Error :: "error option"
  Certificates :: "Certificate list"
  TrustedChains :: "string \<rightharpoonup> Certificate list"

text \<open>
  What \<^verbatim>\<open>NewCertificateValidity\<close> does that can be seen from outside the returned
  value, in the order it does it: the assignment of \<open>Expired\<close> and the two library calls.
\<close>

datatype event = Set_Expired bool | Call_BuildChains | Call_FilterChainsByKeyUsage

text \<open>
  The loop \<^verbatim>\<open>for i, cert := range certs\<close>: the certificate at index 0 becomes the
  leaf, every other one is added to the intermediates. The state is the pair of the
  pointer \<open>leaf\<close> (nil before the loop) and the pool.
\<close>

fun certs_range ::
  "'pool x509 \<Rightarrow> nat \<Rightarrow> Certificate list \<Rightarrow> Certificate option \<times> 'pool \<Rightarrow> Certificate option \<times> 'pool"
where
  "certs_range x i [] st = st"
| "certs_range x i (cert # rest) (leaf, pool) =
     certs_range x (Suc i) rest (if i = 0 then (Some cert, pool) else (leaf, AddCert x pool cert))"

text \<open>The options as they are after the loop, when the chain builder receives them.\<close>

definition opts_after_range :: "'pool x509 \<Rightarrow> Certificate list \<Rightarrow> 'pool VerifyOptions" where
  "opts_after_range x certs =
     \<lparr>CurrentTime = Now x,
      Intermediates = snd (certs_range x 0 certs (None, NewCertPool x)),
      Roots = SystemRootsPool x\<rparr>"

definition NewCertificateValidity ::
  "'pool x509 \<Rightarrow> Certificate list \<Rightarrow> fault + CertificateValidity \<times> event list"
where
  "NewCertificateValidity x certs =
     (let v = \<lparr>Expired = False, Error = None, Certificates = certs, TrustedChains = Map.empty\<rparr>;
          opts = \<lparr>CurrentTime = Now x, Intermediates = NewCertPool x, Roots = SystemRootsPool x\<rparr>;
          (leaf, pool) = certs_range x 0 certs (None, Intermediates opts);
          opts = opts\<lparr>Intermediates := pool\<rparr>
      in deref leaf (\<lambda>l.
           let expired = (CurrentTime opts < NotBefore l \<or> NotAfter l < CurrentTime opts);
               v = v\<lparr>Expired := expired\<rparr>;
               tr = [Set_Expired expired]
           in deref leaf (\<lambda>l.
                if length (UnhandledCriticalExtensions l) > 0
                then Inr (v\<lparr>CertificateValidity.Error :=
                              Some (errorString ''unhandled critical extension'')\<rparr>, tr)
                else deref leaf (\<lambda>l.
                  let (candidateChains, err) = BuildChains x l opts;
                      tr = tr @ [Call_BuildChains]
                  in if err \<noteq> None then Inr (v\<lparr>CertificateValidity.Error := err\<rparr>, tr)
                     else
                       let keyUsages = [ExtKeyUsageServerAuth];
                           chains = FilterChainsByKeyUsage x candidateChains keyUsages;
                           tr = tr @ [Call_FilterChainsByKeyUsage]
                       in if length chains = 0
                          then Inr (v\<lparr>CertificateValidity.Error :=
                                        Some (CertificateInvalidError l IncompatibleUsage)\<rparr>, tr)
                          else Inr (v\<lparr>TrustedChains :=
                                        (TrustedChains v)(''system'' \<mapsto> chains ! 0)\<rparr>, tr)))))"

text \<open>Trust stores and certificates to evaluate the validity check on.\<close>

definition list_x509 :: "bool \<Rightarrow> (Certificate list) x509" where
  "list_x509 usable =
     \<lparr>Now = 1000, NewCertPool = [], SystemRootsPool = [],
      AddCert = (\<lambda>pool cert. pool @ [cert]),
      BuildChains = (\<lambda>leaf opts. ([leaf # Intermediates opts, [leaf]], None)),
      FilterChainsByKeyUsage = (\<lambda>chains usages. if usable then chains else [])\<rparr>"

definition cert_current :: Certificate where
  "cert_current = \<lparr>NotBefore = 500, NotAfter = 2000, UnhandledCriticalExtensions = [],
                    FingerprintSHA1 = [1, 2, 3]\<rparr>"

definition cert_old :: Certificate where
  "cert_old = \<lparr>NotBefore = 100, NotAfter = 200, UnhandledCriticalExtensions = [],
                FingerprintSHA1 = [4, 5, 6]\<rparr>"

definition cert_critical :: Certificate where
  "cert_critical = \<lparr>NotBefore = 500, NotAfter = 2000,
                     UnhandledCriticalExtensions = [[2, 5, 29, 99]],
                     FingerprintSHA1 = [7, 8, 9]\<rparr>"

section \<open>Certificate validity on a slice with nil elements\<close>





section \<open>Host probing: one grab, and the summary of several\<close>

definition VersionTLS10 :: "16 word" where "VersionTLS10 = 0x0301"
definition VersionTLS12 :: "16 word" where "VersionTLS12 = 0x0303"

record ECDHEParams =
  CurveType :: "8 word"
  CurveID :: "16 word"
  PublicKeyLength :: int

text \<open>
  The interface value \<^verbatim>\<open>dhParams\<close>: nil, a \<^verbatim>\<open>*ztls.ECDHEParams\<close>, or a value of
  another type (on which the type assertion fails).
\<close>

datatype dhParams = dh_nil | dh_ECDHEParams ECDHEParams | dh_other

record ServerHello =
  Version :: "16 word"
  CipherSuite :: "16 word"

record ztls_Certificates =
  ParsedCertificates :: "Certificate list option"

record ServerHandshake =
  ServerHello :: "ServerHello option"
  ServerCertificates :: "ztls_Certificates option"
  DHParams :: dhParams

text \<open>
  The data of a log entry: a TLS handshake event with the pointer
  \<^verbatim>\<open>GetHandshakeLog()\<close> returns, a STARTTLS event, or an event of another type.
\<close>

datatype event_data = TLSHandshakeEvent "ServerHandshake option" | StartTLSEvent | OtherEvent

record log_entry =
  Data :: event_data
  Error :: "error option"

text \<open>
  What the program takes from the grabbing library and the clock: the log of
  \<^verbatim>\<open>zlib.GrabBanner\<close> for an address and a maximum TLS version (the copy of the
  configuration differs from the default in nothing else), the byte strings of a TLS
  version and of a cipher suite, and \<^verbatim>\<open>time.Now().UTC()\<close>.
\<close>

record zgrab =
  GrabBanner :: "8 word list \<Rightarrow> 16 word \<Rightarrow> log_entry list"
  TLSVersion_Bytes :: "16 word \<Rightarrow> string"
  CipherSuite_Bytes :: "16 word \<Rightarrow> string"
  Now_UTC :: time

record MxHostGrab =
  starttls :: "bool option"
  tlsVersion :: "16 word"
  tlsCipherSuite :: "16 word"
  certificates :: "Certificate list option"
  dhParams :: dhParams
  Error :: "string option"

record MxHostSummary =
  address :: "8 word list"
  Updated :: time
  Starttls :: "bool option"
  tlsVersions :: "string set option"
  tlsCipherSuites :: "string set option"
  certificates :: "Certificate list option"
  fingerprints :: "8 word list list option"
  validity :: "CertificateValidity option"
  ecdheCurveType :: "8 word option"
  ecdheCurveId :: "16 word option"
  ecdheKeyLength :: "int option"
  Error :: "string option"

text \<open>Sequencing of steps that may fault.\<close>

definition and_then :: "fault + 'a \<Rightarrow> ('a \<Rightarrow> fault + 'b) \<Rightarrow> fault + 'b" where
  "and_then m k = (case m of Inl f \<Rightarrow> Inl f | Inr a \<Rightarrow> k a)"

definition MxHostGrab_zero :: MxHostGrab where
  "MxHostGrab_zero =
     \<lparr>starttls = None, tlsVersion = 0, tlsCipherSuite = 0, certificates = None,
      dhParams = dh_nil, Error = None\<rparr>"

text \<open>
  One round of the loop over \<^verbatim>\<open>banner.Log\<close>, on the result and the two local
  pointers \<open>tlsHandshake\<close> and \<open>tlsHello\<close>: first the type switch, then the error.
\<close>

definition banner_entry ::
  "log_entry \<Rightarrow> MxHostGrab \<times> ServerHandshake option \<times> ServerHello option
     \<Rightarrow> fault + MxHostGrab \<times> ServerHandshake option \<times> ServerHello option"
where
  "banner_entry entry st =
     (case st of (result, tlsHandshake, tlsHello) \<Rightarrow>
        and_then
          (case Data entry of
             TLSHandshakeEvent hl \<Rightarrow> deref hl (\<lambda>h. Inr (result, hl, ServerHello h))
           | StartTLSEvent \<Rightarrow>
               Inr (result\<lparr>starttls := Some (log_entry.Error entry = None)\<rparr>, tlsHandshake, tlsHello)
           | OtherEvent \<Rightarrow> Inr (result, tlsHandshake, tlsHello))
          (\<lambda>(result, tlsHandshake, tlsHello).
             case log_entry.Error entry of
               None \<Rightarrow> Inr (result, tlsHandshake, tlsHello)
             | Some e \<Rightarrow>
                 Inr (result\<lparr>MxHostGrab.Error := Some (error_Error (simplifyError e))\<rparr>,
                      tlsHandshake, tlsHello)))"

fun banner_range ::
  "log_entry list \<Rightarrow> MxHostGrab \<times> ServerHandshake option \<times> ServerHello option
     \<Rightarrow> fault + MxHostGrab \<times> ServerHandshake option \<times> ServerHello option"
where
  "banner_range [] st = Inr st"
| "banner_range (entry # rest) st = and_then (banner_entry entry st) (banner_range rest)"

definition NewMxHostGrab :: "zgrab \<Rightarrow> 8 word list \<Rightarrow> 16 word \<Rightarrow> fault + MxHostGrab" where
  "NewMxHostGrab z addr tlsVersion' =
     and_then (banner_range (GrabBanner z addr tlsVersion') (MxHostGrab_zero, None, None))
       (\<lambda>(result, tlsHandshake, tlsHello).
          let result = (case tlsHello of
                          None \<Rightarrow> result
                        | Some hello \<Rightarrow> result\<lparr>tlsVersion := Version hello,
                                                 tlsCipherSuite := CipherSuite hello\<rparr>);
              result = (case tlsHandshake of
                          None \<Rightarrow> result
                        | Some hs \<Rightarrow>
                            (case ServerCertificates hs of
                               None \<Rightarrow> result
                             | Some certs \<Rightarrow>
                                 result\<lparr>MxHostGrab.certificates := ParsedCertificates certs\<rparr>)
                            \<lparr>dhParams := DHParams hs\<rparr>)
          in Inr result)"

definition TLSSuccessful :: "MxHostGrab \<Rightarrow> bool" where
  "TLSSuccessful result = (MxHostGrab.certificates result \<noteq> None)"

text \<open>
  \<^verbatim>\<open>Append\<close>. A method call on a nil set would fault; the two sets are created
  together, so the second dereference follows the first.
\<close>

definition Append :: "zgrab \<Rightarrow> MxHostSummary \<Rightarrow> MxHostGrab \<Rightarrow> fault + MxHostSummary" where
  "Append z summary grab =
     (let summary = (if MxHostSummary.certificates summary = None
                     then summary\<lparr>MxHostSummary.certificates := MxHostGrab.certificates grab\<rparr>
                     else summary)
      in if tlsVersion grab \<noteq> 0
         then
           let summary = (if tlsVersions summary = None
                          then summary\<lparr>tlsVersions := Some {}, tlsCipherSuites := Some {}\<rparr>
                          else summary)
           in deref (tlsVersions summary) (\<lambda>versions.
                let summary = summary\<lparr>tlsVersions :=
                                Some (insert (TLSVersion_Bytes z (tlsVersion grab)) versions)\<rparr>
                in deref (tlsCipherSuites summary) (\<lambda>suites.
                     let summary = summary\<lparr>tlsCipherSuites :=
                                     Some (insert (CipherSuite_Bytes z (tlsCipherSuite grab)) suites)\<rparr>
                     in Inr (if ecdheCurveType summary = None
                             then (case dhParams grab of
                                     dh_ECDHEParams ecdheParams \<Rightarrow>
                                       summary\<lparr>ecdheCurveType := Some (CurveType ecdheParams),
                                               ecdheCurveId := Some (CurveID ecdheParams),
                                               ecdheKeyLength := Some (PublicKeyLength ecdheParams)\<rparr>
                                   | _ \<Rightarrow> summary)
                             else summary)))
         else Inr summary)"

definition Fingerprints :: "Certificate list \<Rightarrow> 8 word list list" where
  "Fingerprints certs = map FingerprintSHA1 certs"

text \<open>The summary as the composite literal at the start of \<^verbatim>\<open>NewMxHostSummary\<close> makes it.\<close>

definition MxHostSummary_new :: "zgrab \<Rightarrow> 8 word list \<Rightarrow> MxHostSummary" where
  "MxHostSummary_new z addr =
     \<lparr>address = addr, Updated = Now_UTC z, Starttls = None, tlsVersions = None,
      tlsCipherSuites = None, certificates = None, fingerprints = None, validity = None,
      ecdheCurveType = None, ecdheCurveId = None, ecdheKeyLength = None, Error = None\<rparr>"

text \<open>The last block of \<^verbatim>\<open>NewMxHostSummary\<close>: fingerprints and certificate validity.\<close>

definition set_fingerprints_validity :: "'pool x509 \<Rightarrow> MxHostSummary \<Rightarrow> fault + MxHostSummary" where
  "set_fingerprints_validity x result =
     (case MxHostSummary.certificates result of
        None \<Rightarrow> Inr result
      | Some certs \<Rightarrow>
          and_then (NewCertificateValidity x certs)
            (\<lambda>(v, tr). Inr (result\<lparr>fingerprints := Some (Fingerprints certs),
                                   validity := Some v\<rparr>)))"

text \<open>
  \<^verbatim>\<open>NewMxHostSummary\<close>, returning with the summary the list of the probes it made: the
  maximum TLS version of each call of \<^verbatim>\<open>NewMxHostGrab\<close>, in order.
\<close>

definition NewMxHostSummary ::
  "zgrab \<Rightarrow> 'pool x509 \<Rightarrow> 8 word list \<Rightarrow> fault + MxHostSummary \<times> 16 word list"
where
  "NewMxHostSummary z x addr =
     (let result = MxHostSummary_new z addr
      in and_then (NewMxHostGrab z addr VersionTLS12) (\<lambda>grab.
           let result = result\<lparr>Starttls := starttls grab,
                               MxHostSummary.Error := MxHostGrab.Error grab\<rparr>
           in and_then
                (if Starttls result = Some True
                 then and_then (Append z result grab) (\<lambda>result.
                        if VersionTLS10 < tlsVersion grab
                        then and_then (NewMxHostGrab z addr VersionTLS10) (\<lambda>grab.
                               if TLSSuccessful grab
                               then and_then (Append z result grab)
                                      (\<lambda>result. Inr (result, [VersionTLS12, VersionTLS10]))
                               else Inr (result, [VersionTLS12, VersionTLS10]))
                        else Inr (result, [VersionTLS12]))
                 else Inr (result, [VersionTLS12]))
                (\<lambda>(result, probes).
                   and_then (set_fingerprints_validity x result)
                     (\<lambda>result. Inr (result, probes)))))"

text \<open>
  A host to evaluate the summary on: under TLS 1.2 it negotiates a DHE suite, under
  TLS 1.0 an ECDHE suite, with the same certificate.
\<close>

definition dhe_then_ecdhe_host :: zgrab where
  "dhe_then_ecdhe_host =
     \<lparr>GrabBanner = (\<lambda>addr v.
        if v = VersionTLS12
        then [\<lparr>Data = StartTLSEvent, Error = None\<rparr>,
              \<lparr>Data = TLSHandshakeEvent (Some
                 \<lparr>ServerHello = Some \<lparr>Version = 0x0303, CipherSuite = 0x009E\<rparr>,
                  ServerCertificates = Some \<lparr>ParsedCertificates = Some [cert_current]\<rparr>,
                  DHParams = dh_other\<rparr>), Error = None\<rparr>]
        else [\<lparr>Data = StartTLSEvent, Error = None\<rparr>,
              \<lparr>Data = TLSHandshakeEvent (Some
                 \<lparr>ServerHello = Some \<lparr>Version = 0x0301, CipherSuite = 0xC013\<rparr>,
                  ServerCertificates = Some \<lparr>ParsedCertificates = Some [cert_current]\<rparr>,
                  DHParams = dh_ECDHEParams \<lparr>CurveType = 3, CurveID = 23, PublicKeyLength = 65\<rparr>\<rparr>),
                Error = None\<rparr>]),
      TLSVersion_Bytes = (\<lambda>v. if v = 0x0303 then ''TLSv1.2'' else ''TLSv1.0''),
      CipherSuite_Bytes = (\<lambda>c. if c = 0x009E then ''DHE-RSA-AES128-GCM-SHA256''
                                 else ''ECDHE-RSA-AES128-SHA''),
      Now_UTC = 1000\<rparr>"

text \<open>
  A host whose second probe fails: under TLS 1.2 it completes the handshake, under
  TLS 1.0 the connection is refused.
\<close>

definition tls12_only_host :: zgrab where
  "tls12_only_host =
     \<lparr>GrabBanner = (\<lambda>addr v.
        if v = VersionTLS12
        then [\<lparr>Data = StartTLSEvent, Error = None\<rparr>,
              \<lparr>Data = TLSHandshakeEvent (Some
                 \<lparr>ServerHello = Some \<lparr>Version = 0x0303, CipherSuite = 0x009E\<rparr>,
                  ServerCertificates = Some \<lparr>ParsedCertificates = Some [cert_current]\<rparr>,
                  DHParams = dh_other\<rparr>), Error = None\<rparr>]
        else [\<lparr>Data = OtherEvent,
               Error = Some (libError ''dial tcp 203.0.113.5:25: connection refused'')\<rparr>]),
      TLSVersion_Bytes = (\<lambda>v. if v = 0x0303 then ''TLSv1.2'' else ''TLSv1.0''),
      CipherSuite_Bytes = (\<lambda>c. if c = 0x009E then ''DHE-RSA-AES128-GCM-SHA256''
                                 else ''ECDHE-RSA-AES128-SHA''),
      Now_UTC = 1000\<rparr>"

section \<open>The DNS processor and the threads that use it\<close>

text \<open>
  A \<^verbatim>\<open>*DnsJob\<close> is a handle: the index of the job in the heap of allocated jobs. The
  \<^verbatim>\<open>sync.WaitGroup\<close> of a job is its counter.
\<close>

type_synonym handle = nat
type_synonym tid = nat

record DnsJob =
  wait :: nat
  Query :: DnsQuery
  Result :: "DnsResult option"

text \<open>
  The loop of \<^verbatim>\<open>NewJobs\<close> that a call of \<^verbatim>\<open>NewJob\<close> returns into: the domain, the
  types, the index of the round and the jobs of the group so far.
\<close>

type_synonym frame = "string \<times> dns_Type list \<times> nat \<times> handle list"

text \<open>
  Where a thread is: the statement it executes next, with its local variables.
  \<^item> \<open>NewJob\<close>: before \<^verbatim>\<open>mutex.Lock\<close>; holding the lock, before the lookup in the map;
    before \<^verbatim>\<open>mutex.Unlock\<close>, with \<open>job\<close> and \<open>exist\<close>; before the test of \<open>exist\<close>
    that guards \<^verbatim>\<open>workers.Add\<close>; returned.
  \<^item> \<open>NewJobs\<close>: at the head of the loop over the types; returned with the group.
  \<^item> \<open>DnsJobs.Wait\<close>: at the head of the loop over the jobs; returned.
  \<^item> \<open>DnsJobs.Results\<close>: at the head of the loop, in \<open>job.Results()\<close> before
    \<^verbatim>\<open>job.Wait()\<close> returns; after it, before reading \<open>job.Result.Results\<close>; returned.
  \<^item> the work closure of \<open>NewDnsProcessor\<close>: before the lookup; before
    \<^verbatim>\<open>mutex.Lock\<close>; before \<^verbatim>\<open>delete\<close>; before \<^verbatim>\<open>mutex.Unlock\<close>; before
    \<^verbatim>\<open>wait.Done\<close>.
\<close>

datatype pc =
    Idle
  | NewJob_lock "frame option" DnsQuery
  | NewJob_check "frame option" DnsQuery
  | NewJob_unlock "frame option" handle bool
  | NewJob_add "frame option" handle bool
  | NewJob_returned handle
  | NewJobs_range string "dns_Type list" nat "handle list"
  | NewJobs_returned string "dns_Type list" "handle list"
  | Wait_range "handle list" nat
  | Wait_returned "handle list"
  | Results_wait "handle list" nat "string list"
  | Results_read "handle list" nat "string list"
  | Results_returned "handle list" "string list"
  | work_Lookup handle
  | work_lock handle
  | work_delete handle
  | work_unlock handle
  | work_Done handle

text \<open>
  The state of the program: the map \<open>jobs\<close> and the mutex of the \<open>DnsProcessor\<close>, its
  worker pool, the heap of jobs, the threads, and the fault if the program has panicked.
  The mutex is \<open>None\<close> when unlocked and holds the thread that locked it otherwise.
  \<open>workers\<close> is the intake queue of the worker pool; \<open>added\<close> records every call of
  \<^verbatim>\<open>proc.workers.Add\<close>, in order.
\<close>

record system =
  jobs :: "DnsQuery \<rightharpoonup> handle"
  mutex :: "tid option"
  workers :: "handle list"
  heap :: "DnsJob list"
  threads :: "tid \<Rightarrow> pc"
  added :: "handle list"
  crashed :: "fault option"

text \<open>\<^verbatim>\<open>NewDnsProcessor\<close>: an empty map, an unlocked mutex, an empty pool; no thread runs.\<close>

definition NewDnsProcessor :: system where
  "NewDnsProcessor =
     \<lparr>jobs = Map.empty, mutex = None, workers = [], heap = [], threads = (\<lambda>t. Idle),
      added = [], crashed = None\<rparr>"

text \<open>
  Modelled from the spec: \<^verbatim>\<open>WorkerPool\<close> (\<^verbatim>\<open>NewWorkerPool\<close>, \<^verbatim>\<open>Add\<close>) is not among the
  sources. It is a pool of workers that consume from a shared intake queue in FIFO order;
  \<^verbatim>\<open>Add\<close> puts the item at the end of the queue.
\<close>

definition WorkerPool_Add :: "handle \<Rightarrow> handle list \<Rightarrow> handle list" where
  "WorkerPool_Add item queue = queue @ [item]"

definition set_pc :: "tid \<Rightarrow> pc \<Rightarrow> system \<Rightarrow> system" where
  "set_pc t p s = s\<lparr>threads := (threads s)(t := p)\<rparr>"

text \<open>A thread can start a call when it runs nothing or has returned from a call.\<close>

fun ready :: "pc \<Rightarrow> bool" where
  "ready Idle = True"
| "ready (NewJob_returned job) = True"
| "ready (NewJobs_returned domain types grp) = True"
| "ready (Wait_returned grp) = True"
| "ready (Results_returned grp results) = True"
| "ready _ = False"

text \<open>Where \<^verbatim>\<open>NewJob\<close> returns to: its caller, or the loop of \<^verbatim>\<open>NewJobs\<close>, which appends
  the job to the group and goes to the next type.\<close>

fun NewJob_return :: "frame option \<Rightarrow> handle \<Rightarrow> pc" where
  "NewJob_return None job = NewJob_returned job"
| "NewJob_return (Some (domain, types, i, grp)) job =
     NewJobs_range domain types (Suc i) (grp @ [job])"

text \<open>
  One statement of thread \<open>t\<close>. A thread that waits (for the mutex, for a job's counter
  to reach zero) stays where it is. The body of the critical section of \<^verbatim>\<open>NewJob\<close>,
  lines 105 to 110, is one statement: a new job is reachable by no other thread before
  it is in the map.
\<close>

definition step :: "tid \<Rightarrow> system \<Rightarrow> system" where
  "step t s =
     (case threads s t of
        NewJob_lock c query \<Rightarrow>
          if mutex s = None then set_pc t (NewJob_check c query) (s\<lparr>mutex := Some t\<rparr>) else s
      | NewJob_check c query \<Rightarrow>
          (case jobs s query of
             Some job \<Rightarrow> set_pc t (NewJob_unlock c job True) s
           | None \<Rightarrow>
               let job = length (heap s)
               in set_pc t (NewJob_unlock c job False)
                    (s\<lparr>heap := heap s @ [\<lparr>wait = 1, Query = query, Result = None\<rparr>],
                       jobs := (jobs s)(query \<mapsto> job)\<rparr>))
      | NewJob_unlock c job exist \<Rightarrow>
          if mutex s = None then s\<lparr>crashed := Some UnlockOfUnlockedMutex\<rparr>
          else set_pc t (NewJob_add c job exist) (s\<lparr>mutex := None\<rparr>)
      | NewJob_add c job exist \<Rightarrow>
          set_pc t (NewJob_return c job)
            (if \<not> exist
             then s\<lparr>workers := WorkerPool_Add job (workers s), added := added s @ [job]\<rparr>
             else s)
      | NewJobs_range domain types i grp \<Rightarrow>
          if i < length types
          then set_pc t (NewJob_lock (Some (domain, types, i, grp))
                           \<lparr>Domain' = domain, Type = types ! i\<rparr>) s
          else set_pc t (NewJobs_returned domain types grp) s
      | Wait_range grp i \<Rightarrow>
          if i < length grp
          then (if wait (heap s ! (grp ! i)) = 0 then set_pc t (Wait_range grp (Suc i)) s else s)
          else set_pc t (Wait_returned grp) s
      | Results_wait grp i results \<Rightarrow>
          if i < length grp
          then (if wait (heap s ! (grp ! i)) = 0 then set_pc t (Results_read grp i results) s
                else s)
          else set_pc t (Results_returned grp results) s
      | Results_read grp i results \<Rightarrow>
          (case Result (heap s ! (grp ! i)) of
             None \<Rightarrow> s\<lparr>crashed := Some NilPointerDereference\<rparr>
           | Some r \<Rightarrow>
               set_pc t (Results_wait grp (Suc i)
                           (fold (\<lambda>item results. results @ [item]) (Results r) results)) s)
      | work_lock job \<Rightarrow>
          if mutex s = None then set_pc t (work_delete job) (s\<lparr>mutex := Some t\<rparr>) else s
      | work_delete job \<Rightarrow>
          set_pc t (work_unlock job) (s\<lparr>jobs := (jobs s)(Query (heap s ! job) := None)\<rparr>)
      | work_unlock job \<Rightarrow>
          if mutex s = None then s\<lparr>crashed := Some UnlockOfUnlockedMutex\<rparr>
          else set_pc t (work_Done job) (s\<lparr>mutex := None\<rparr>)
      | work_Done job \<Rightarrow>
          if wait (heap s ! job) = 0 then s\<lparr>crashed := Some NegativeWaitGroupCounter\<rparr>
          else set_pc t Idle
                 (s\<lparr>heap := (heap s)[job := (heap s ! job)\<lparr>wait := wait (heap s ! job) - 1\<rparr>]\<rparr>)
      | _ \<Rightarrow> s)"

text \<open>
  The first statement of the work closure, \<^verbatim>\<open>result := proc.Lookup(job.Query)\<close> and
  \<^verbatim>\<open>job.Result = &result\<close>, with what the resolvers answer at that moment.
\<close>

definition work_lookup :: "lib \<Rightarrow> resolver \<Rightarrow> tid \<Rightarrow> system \<Rightarrow> system" where
  "work_lookup l net t s =
     (case threads s t of
        work_Lookup job \<Rightarrow>
          (case Lookup l net (Query (heap s ! job)) of
             Inl f \<Rightarrow> s\<lparr>crashed := Some f\<rparr>
           | Inr result \<Rightarrow>
               set_pc t (work_lock job)
                 (s\<lparr>heap := (heap s)[job := (heap s ! job)\<lparr>Result := Some result\<rparr>]\<rparr>))
      | _ \<Rightarrow> s)"

text \<open>
  Modelled from the spec: the loop of a worker of the \<^verbatim>\<open>WorkerPool\<close>, which is not among
  the sources. An idle thread, as a worker of the pool, takes the first item of the queue
  and runs the work closure on it. Every item of the pool is a \<^verbatim>\<open>*DnsJob\<close>, so the type
  assertion at the head of the closure succeeds.
\<close>

definition receive :: "tid \<Rightarrow> system \<Rightarrow> system" where
  "receive t s =
     (case threads s t of
        Idle \<Rightarrow> (case workers s of
                   [] \<Rightarrow> s
                 | job # rest \<Rightarrow> set_pc t (work_Lookup job) (s\<lparr>workers := rest\<rparr>))
      | _ \<Rightarrow> s)"

text \<open>
  What happens next: a thread calls a function of the processor, a thread executes a
  statement, a worker receives an item, or a worker's lookup is answered. The group
  passed to \<open>Wait\<close> and \<open>Results\<close> holds pointers to allocated jobs.
\<close>

datatype action =
    Call_NewJob tid string dns_Type
  | Call_NewJobs tid string "dns_Type list"
  | Call_Wait tid "handle list"
  | Call_Results tid "handle list"
  | Step tid
  | Receive tid
  | Answer tid resolver

fun perform :: "lib \<Rightarrow> action \<Rightarrow> system \<Rightarrow> system" where
  "perform l (Call_NewJob t domain typ) s =
     (if ready (threads s t)
      then set_pc t (NewJob_lock None \<lparr>Domain' = domain, Type = typ\<rparr>) s else s)"
| "perform l (Call_NewJobs t domain types) s =
     (if ready (threads s t) then set_pc t (NewJobs_range domain types 0 []) s else s)"
| "perform l (Call_Wait t grp) s =
     (if ready (threads s t) \<and> (\<forall>job\<in>set grp. job < length (heap s))
      then set_pc t (Wait_range grp 0) s else s)"
| "perform l (Call_Results t grp) s =
     (if ready (threads s t) \<and> (\<forall>job\<in>set grp. job < length (heap s))
      then set_pc t (Results_wait grp 0 []) s else s)"
| "perform l (Step t) s = step t s"
| "perform l (Receive t) s = receive t s"
| "perform l (Answer t net) s = work_lookup l net t s"

text \<open>The thread that acts.\<close>

fun actor :: "action \<Rightarrow> tid" where
  "actor (Call_NewJob t domain typ) = t"
| "actor (Call_NewJobs t domain types) = t"
| "actor (Call_Wait t grp) = t"
| "actor (Call_Results t grp) = t"
| "actor (Step t) = t"
| "actor (Receive t) = t"
| "actor (Answer t net) = t"

text \<open>A program that has panicked does nothing more.\<close>

definition exec :: "lib \<Rightarrow> action \<Rightarrow> system \<Rightarrow> system" where
  "exec l a s = (if crashed s = None then perform l a s else s)"

definition run :: "lib \<Rightarrow> action list \<Rightarrow> system \<Rightarrow> system" where
  "run l as s = fold (exec l) as s"

text \<open>The results of a job that is done, as \<^verbatim>\<open>job.Result.Results\<close> reads them.\<close>

definition job_results :: "DnsJob list \<Rightarrow> handle \<Rightarrow> string list" where
  "job_results h job = (case Result (h ! job) of None \<Rightarrow> [] | Some r \<Rightarrow> Results r)"

subsection \<open>What holds in every state\<close>

fun holds_mutex :: "pc \<Rightarrow> bool" where
  "holds_mutex (NewJob_check c query) = True"
| "holds_mutex (NewJob_unlock c job exist) = True"
| "holds_mutex (work_delete job) = True"
| "holds_mutex (work_unlock job) = True"
| "holds_mutex _ = False"

text \<open>The job a thread has created and not yet added to the pool.\<close>

fun creator_job :: "pc \<Rightarrow> handle option" where
  "creator_job (NewJob_unlock c job exist) = (if exist then None else Some job)"
| "creator_job (NewJob_add c job exist) = (if exist then None else Some job)"
| "creator_job _ = None"

text \<open>The job a worker works on.\<close>

fun worker_job :: "pc \<Rightarrow> handle option" where
  "worker_job (work_Lookup job) = Some job"
| "worker_job (work_lock job) = Some job"
| "worker_job (work_delete job) = Some job"
| "worker_job (work_unlock job) = Some job"
| "worker_job (work_Done job) = Some job"
| "worker_job _ = None"

text \<open>How far the work on a job is: result not yet written; written and the job still in
  the map; the job removed from the map.\<close>

fun worker_ok :: "system \<Rightarrow> pc \<Rightarrow> bool" where
  "worker_ok s (work_Lookup job) =
     (jobs s (Query (heap s ! job)) = Some job \<and> Result (heap s ! job) = None)"
| "worker_ok s (work_lock job) =
     (jobs s (Query (heap s ! job)) = Some job \<and> Result (heap s ! job) \<noteq> None)"
| "worker_ok s (work_delete job) =
     (jobs s (Query (heap s ! job)) = Some job \<and> Result (heap s ! job) \<noteq> None)"
| "worker_ok s (work_unlock job) =
     ((\<forall>q. jobs s q \<noteq> Some job) \<and> Result (heap s ! job) \<noteq> None)"
| "worker_ok s (work_Done job) =
     ((\<forall>q. jobs s q \<noteq> Some job) \<and> Result (heap s ! job) \<noteq> None)"
| "worker_ok s _ = True"

text \<open>The mutex is held by exactly the thread that is inside a critical section.\<close>

definition mutex_ok :: "system \<Rightarrow> bool" where
  "mutex_ok s \<longleftrightarrow> (\<forall>t. (mutex s = Some t) = holds_mutex (threads s t))"

text \<open>An entry of the map is an allocated job with the key as its query, not yet done.\<close>

definition map_ok :: "system \<Rightarrow> bool" where
  "map_ok s \<longleftrightarrow>
     (\<forall>q job. jobs s q = Some job \<longrightarrow>
        job < length (heap s) \<and> Query (heap s ! job) = q \<and> wait (heap s ! job) = 1)"

text \<open>Jobs are added to the pool at most once; what is in the queue has been added.\<close>

definition added_ok :: "system \<Rightarrow> bool" where
  "added_ok s \<longleftrightarrow>
     set (added s) \<subseteq> {..<length (heap s)} \<and> distinct (added s) \<and>
     set (workers s) \<subseteq> set (added s) \<and> distinct (workers s)"

text \<open>A job in the queue is in the map and has no result.\<close>

definition queue_ok :: "system \<Rightarrow> bool" where
  "queue_ok s \<longleftrightarrow>
     (\<forall>job\<in>set (workers s).
        jobs s (Query (heap s ! job)) = Some job \<and> Result (heap s ! job) = None)"

text \<open>
  A job that a thread has created and not yet added is in the map, has no result and has
  not been added; one thread only holds it; and a job that has not been added is held so.
\<close>

definition creators_ok :: "system \<Rightarrow> bool" where
  "creators_ok s \<longleftrightarrow>
     (\<forall>t job. creator_job (threads s t) = Some job \<longrightarrow>
        job < length (heap s) \<and> job \<notin> set (added s) \<and>
        jobs s (Query (heap s ! job)) = Some job \<and> Result (heap s ! job) = None) \<and>
     (\<forall>t t' job. creator_job (threads s t) = Some job \<and> creator_job (threads s t') = Some job
        \<longrightarrow> t = t') \<and>
     (\<forall>job<length (heap s). job \<notin> set (added s) \<longrightarrow>
        (\<exists>t. creator_job (threads s t) = Some job))"

text \<open>
  A job that a worker works on has been added, is no longer in the queue, is not done,
  and is as far as the worker's place says; one worker only works on it.
\<close>

definition workers_ok :: "system \<Rightarrow> bool" where
  "workers_ok s \<longleftrightarrow>
     (\<forall>t job. worker_job (threads s t) = Some job \<longrightarrow>
        job \<in> set (added s) \<and> job \<notin> set (workers s) \<and> wait (heap s ! job) = 1 \<and>
        worker_ok s (threads s t)) \<and>
     (\<forall>t t' job. worker_job (threads s t) = Some job \<and> worker_job (threads s t') = Some job
        \<longrightarrow> t = t')"

text \<open>A job that is not in the map under its query has its result.\<close>

definition results_ok :: "system \<Rightarrow> bool" where
  "results_ok s \<longleftrightarrow>
     (\<forall>job<length (heap s).
        jobs s (Query (heap s ! job)) = Some job \<or> Result (heap s ! job) \<noteq> None)"

definition core :: "system \<Rightarrow> bool" where
  "core s \<longleftrightarrow>
     mutex_ok s \<and> map_ok s \<and> added_ok s \<and> queue_ok s \<and> creators_ok s \<and> workers_ok s \<and>
     results_ok s"

text \<open>What a thread in a call knows of the jobs it holds.\<close>

definition group_ok :: "DnsJob list \<Rightarrow> string \<Rightarrow> dns_Type list \<Rightarrow> nat \<Rightarrow> handle list \<Rightarrow> bool" where
  "group_ok h domain types i grp \<longleftrightarrow>
     i \<le> length types \<and> (\<forall>job\<in>set grp. job < length h) \<and>
     map (\<lambda>job. Query (h ! job)) grp
       = map (\<lambda>typ. \<lparr>Domain' = domain, Type = typ\<rparr>) (take i types)"

fun frame_ok :: "DnsJob list \<Rightarrow> frame option \<Rightarrow> DnsQuery \<Rightarrow> bool" where
  "frame_ok h None query = True"
| "frame_ok h (Some (domain, types, i, grp)) query =
     (i < length types \<and> query = \<lparr>Domain' = domain, Type = types ! i\<rparr> \<and>
      group_ok h domain types i grp)"

definition all_done :: "DnsJob list \<Rightarrow> handle list \<Rightarrow> bool" where
  "all_done h grp \<longleftrightarrow> (\<forall>job\<in>set grp. job < length h \<and> wait (h ! job) = 0)"

fun client_ok :: "DnsJob list \<Rightarrow> pc \<Rightarrow> bool" where
  "client_ok h (NewJob_lock c query) = frame_ok h c query"
| "client_ok h (NewJob_check c query) = frame_ok h c query"
| "client_ok h (NewJob_unlock c job exist) = (job < length h \<and> frame_ok h c (Query (h ! job)))"
| "client_ok h (NewJob_add c job exist) = (job < length h \<and> frame_ok h c (Query (h ! job)))"
| "client_ok h (NewJob_returned job) = (job < length h)"
| "client_ok h (NewJobs_range domain types i grp) = group_ok h domain types i grp"
| "client_ok h (NewJobs_returned domain types grp) =
     group_ok h domain types (length types) grp"
| "client_ok h (Wait_range grp i) =
     (i \<le> length grp \<and> (\<forall>job\<in>set grp. job < length h) \<and> all_done h (take i grp))"
| "client_ok h (Wait_returned grp) = all_done h grp"
| "client_ok h (Results_wait grp i results) =
     (i \<le> length grp \<and> (\<forall>job\<in>set grp. job < length h) \<and> all_done h (take i grp) \<and>
      results = concat (map (job_results h) (take i grp)))"
| "client_ok h (Results_read grp i results) =
     (i < length grp \<and> (\<forall>job\<in>set grp. job < length h) \<and> all_done h (take (Suc i) grp) \<and>
      results = concat (map (job_results h) (take i grp)))"
| "client_ok h (Results_returned grp results) =
     (all_done h grp \<and> results = concat (map (job_results h) grp))"
| "client_ok h _ = True"

definition clients :: "system \<Rightarrow> bool" where
  "clients s \<longleftrightarrow> (\<forall>t. client_ok (heap s) (threads s t))"

text \<open>The heap only grows; a job keeps its query; a job that is done is not written again.\<close>

definition heap_mono :: "DnsJob list \<Rightarrow> DnsJob list \<Rightarrow> bool" where
  "heap_mono h h' \<longleftrightarrow>
     length h \<le> length h' \<and>
     (\<forall>job<length h. Query (h' ! job) = Query (h ! job) \<and>
                     (wait (h ! job) = 0 \<longrightarrow> h' ! job = h ! job))"

subsection \<open>Schedules to evaluate the processor on\<close>


text \<open>
  Thread 0 creates a job and returns; thread 1, a worker, receives it, looks it up,
  removes it from the map and signals completion; thread 0 then waits for the job.
\<close>

definition lookup_and_wait :: "action list" where
  "lookup_and_wait =
     [Call_NewJob 0 ''mx.example.com.'' TypeA, Step 0, Step 0, Step 0, Step 0,
      Receive 1, Answer 1 a_records, Step 1, Step 1, Step 1, Step 1,
      Call_Wait 0 [0], Step 0, Step 0]"

section \<open>Properties of the error simplification\<close>

lemma LastIndex_scan_found:
  "k \<le> n \<Longrightarrow> HasPrefix (drop k s) substr \<Longrightarrow>
   (\<forall>i. k < i \<and> i \<le> n \<longrightarrow> \<not> HasPrefix (drop i s) substr) \<Longrightarrow>
   LastIndex_scan s substr n = int k"
proof (induction n)
  case 0
  then show ?case by simp
next
  case (Suc n)
  show ?case
  proof (cases "k = Suc n")
    case True
    with Suc.prems show ?thesis by simp
  next
    case False
    with Suc.prems have "k \<le> n" by simp
    moreover from Suc.prems False have "\<not> HasPrefix (drop (Suc n) s) substr" by simp
    moreover from Suc.prems have "\<forall>i. k < i \<and> i \<le> n \<longrightarrow> \<not> HasPrefix (drop i s) substr" by simp
    ultimately show ?thesis using Suc.IH Suc.prems(2) by simp
  qed
qed

lemma LastIndex_scan_none:
  "(\<forall>i\<le>n. \<not> HasPrefix (drop i s) substr) \<Longrightarrow> LastIndex_scan s substr n = -1"
  by (induction n) simp_all

lemma Contains_drop: "HasPrefix (drop i s) substr \<Longrightarrow> i \<le> length s \<Longrightarrow> Contains s substr"
proof (induction s arbitrary: i)
  case Nil
  then show ?case by (simp add: HasPrefix_def)
next
  case (Cons c s)
  then show ?case by (cases i) auto
qed

lemma Contains_split: "Contains s substr \<Longrightarrow> \<exists>a b. s = a @ substr @ b"
proof (induction s)
  case Nil
  then show ?case by simp
next
  case (Cons c s)
  show ?case
  proof (cases "HasPrefix (c # s) substr")
    case True
    then have "c # s = [] @ substr @ drop (length substr) (c # s)"
      unfolding HasPrefix_def by (metis append_Nil append_take_drop_id)
    then show ?thesis by blast
  next
    case False
    with Cons.prems have "Contains s substr" by simp
    then obtain a b where "s = a @ substr @ b" using Cons.IH by blast
    then have "c # s = (c # a) @ substr @ b" by simp
    then show ?thesis by blast
  qed
qed

text \<open>
  When the text after an occurrence of the separator holds no further occurrence, that
  occurrence is the last one: an occurrence one byte later would start with the blank.
\<close>

lemma LastIndex_last_sep:
  assumes "\<not> Contains b '': ''"
  shows "LastIndex (a @ '': '' @ b) '': '' = int (length a)"
proof -
  let ?s = "a @ '': '' @ b"
  have here: "HasPrefix (drop (length a) ?s) '': ''"
    by (simp add: HasPrefix_def)
  have later: "\<not> HasPrefix (drop i ?s) '': ''" if "length a < i" "i \<le> length ?s - 2" for i
  proof (cases "i = Suc (length a)")
    case True
    then show ?thesis by (simp add: HasPrefix_def)
  next
    case False
    define j where "j = i - (length a + 2)"
    from False that have j: "i = length a + 2 + j" "j \<le> length b"
      unfolding j_def by auto
    then have "drop i ?s = drop j b" by simp
    with assms j show ?thesis using Contains_drop by metis
  qed
  show ?thesis
    unfolding LastIndex_def
    using LastIndex_scan_found [of "length a" "length ?s - 2" ?s "'': ''"] here later
    by simp
qed

lemma LastIndex_absent:
  assumes "\<not> Contains s substr"
  shows "LastIndex s substr = -1"
proof -
  have "\<not> HasPrefix (drop i s) substr" if "i \<le> length s - length substr" for i
  proof
    assume "HasPrefix (drop i s) substr"
    moreover from that have "i \<le> length s" by simp
    ultimately show False using assms Contains_drop by blast
  qed
  then show ?thesis
    unfolding LastIndex_def by (simp add: LastIndex_scan_none)
qed

lemma simplifyError_range_no_prefix:
  "\<forall>p\<in>set ps. \<not> HasPrefix msg p \<Longrightarrow> simplifyError_range err msg ps = err"
  by (induction ps) simp_all

lemma simplifyError_range_no_sep:
  "LastIndex msg '': '' = -1 \<Longrightarrow> simplifyError_range err msg ps = err"
  by (induction ps) simp_all

lemma simplifyError_range_strip:
  "\<exists>p\<in>set ps. HasPrefix msg p \<Longrightarrow> LastIndex msg '': '' = int k \<Longrightarrow>
   simplifyError_range err msg ps = errorString (drop (k + 2) msg)"
  by (induction ps) (auto simp: nat_add_distrib)

text \<open>
  C6: an error whose text starts with one of the five prefixes and contains the separator
  \<open>'': ''\<close> is replaced by an error whose text is what follows the last separator (the
  text is \<open>a\<close>, the separator, then \<open>b\<close> with no separator in \<open>b\<close>); every other error
  comes back as it is; and the text
  \<open>''dial tcp 203.0.113.5:25: connection refused''\<close> becomes \<open>''connection refused''\<close>.
\<close>

theorem simplifyError_strips:
  "((\<exists>p\<in>set stripErrors. HasPrefix (error_Error err) p) \<and>
      error_Error err = a @ '': '' @ b \<and> \<not> Contains b '': ''
      \<longrightarrow> simplifyError err = errorString b \<and> error_Error (simplifyError err) = b) \<and>
   (\<not> ((\<exists>p\<in>set stripErrors. HasPrefix (error_Error err) p) \<and> Contains (error_Error err) '': '')
      \<longrightarrow> simplifyError err = err) \<and>
   error_Error (simplifyError (libError ''dial tcp 203.0.113.5:25: connection refused''))
     = ''connection refused''"
proof (intro conjI impI)
  assume h: "(\<exists>p\<in>set stripErrors. HasPrefix (error_Error err) p) \<and>
      error_Error err = a @ '': '' @ b \<and> \<not> Contains b '': ''"
  then have "LastIndex (error_Error err) '': '' = int (length a)"
    using LastIndex_last_sep by simp
  with h have "simplifyError err = errorString (drop (length a + 2) (error_Error err))"
    unfolding simplifyError_def using simplifyError_range_strip by blast
  with h show "simplifyError err = errorString b" by simp
  then show "error_Error (simplifyError err) = b" by simp
next
  assume "\<not> ((\<exists>p\<in>set stripErrors. HasPrefix (error_Error err) p) \<and>
                Contains (error_Error err) '': '')"
  then show "simplifyError err = err"
    unfolding simplifyError_def
    using simplifyError_range_no_prefix simplifyError_range_no_sep LastIndex_absent by blast
next
  show "error_Error (simplifyError (libError ''dial tcp 203.0.113.5:25: connection refused''))
          = ''connection refused''"
    by (simp add: simplifyError_def stripErrors_def HasPrefix_def LastIndex_def)
qed

theorem simplifyError_strips_witness:
  "simplifyError (libError ''read tcp 192.0.2.7:25: i/o timeout'') = errorString ''i/o timeout'' \<and>
   simplifyError (libError ''EOF'') = libError ''EOF''"
  using simplifyError_strips [of "libError ''read tcp 192.0.2.7:25: i/o timeout''"
                                 "''read tcp 192.0.2.7:25''" "''i/o timeout''"]
        simplifyError_strips [of "libError ''EOF''" "[]" "[]"]
  by (simp add: stripErrors_def HasPrefix_def)

section \<open>Properties of the lookup\<close>

text \<open>
  C1 (as the code has it): a lookup over the recursive backend (any type but TLSA) that
  fails with a transport error returns no results and that error, so its
  \<open>ErrorMessage\<close> is the error's text; a lookup answered with NXDOMAIN and no transport
  error returns no results and a nil error, so its \<open>ErrorMessage\<close> is nil.
\<close>

theorem Lookup_transport_error_or_nxdomain:
  "Type query \<noteq> TypeTLSA \<Longrightarrow>
   (Exchange net query = (response, Some e) \<longrightarrow>
      Lookup l net query = Inr (DnsResult_zero\<lparr>DnsResult.Error := Some e\<rparr>) \<and>
      Results (DnsResult_zero\<lparr>DnsResult.Error := Some e\<rparr>) = [] \<and>
      ErrorMessage (DnsResult_zero\<lparr>DnsResult.Error := Some e\<rparr>) = Some (error_Error e)) \<and>
   (Exchange net query = (Some m, None) \<and> dns_Msg.Rcode m = RcodeNameError \<longrightarrow>
      Lookup l net query = Inr DnsResult_zero \<and>
      Results DnsResult_zero = [] \<and>
      DnsResult.Error DnsResult_zero = None \<and>
      ErrorMessage DnsResult_zero = None)"
  by (simp add: Lookup_def lookupDns_def deref_def DnsResult_zero_def ErrorMessage_def)

theorem Lookup_transport_error_or_nxdomain_witness:
  "Lookup plain_lib timeout_resolver \<lparr>Domain' = ''example.org.'', Type = TypeMX\<rparr>
     = Inr (DnsResult_zero\<lparr>DnsResult.Error := Some (libError ''read udp 192.0.2.53:53: i/o timeout'')\<rparr>) \<and>
   Lookup plain_lib nxdomain_resolver \<lparr>Domain' = ''no-such.example.'', Type = TypeA\<rparr>
     = Inr DnsResult_zero"
  using Lookup_transport_error_or_nxdomain
          [of "\<lparr>Domain' = ''example.org.'', Type = TypeMX\<rparr>" timeout_resolver None
              "libError ''read udp 192.0.2.53:53: i/o timeout''" plain_lib]
        Lookup_transport_error_or_nxdomain
          [of "\<lparr>Domain' = ''no-such.example.'', Type = TypeA\<rparr>" nxdomain_resolver _ _ plain_lib
              "\<lparr>dns_Msg.Rcode = 3, Answer = []\<rparr>"]
  by (simp add: timeout_resolver_def nxdomain_resolver_def TypeMX_def TypeA_def TypeTLSA_def
        RcodeNameError_def)

text \<open>
  The claim as the specification words it fails: the lookup of a domain that does not
  exist, answered with NXDOMAIN, returns a nil error and a nil \<open>ErrorMessage\<close>.
\<close>

theorem Lookup_nxdomain_counterexample:
  "Lookup plain_lib nxdomain_resolver \<lparr>Domain' = ''no-such.example.'', Type = TypeA\<rparr>
     = Inr \<lparr>Results = [], Secure = False, Error = None, WhyBogus = None\<rparr> \<and>
   ErrorMessage \<lparr>Results = [], Secure = False, Error = None, WhyBogus = None\<rparr> = None"
  by (simp add: Lookup_def lookupDns_def deref_def DnsResult_zero_def ErrorMessage_def
        nxdomain_resolver_def TypeA_def TypeTLSA_def RcodeNameError_def)

section \<open>Properties of the certificate validity\<close>

lemma certs_range_from_Suc:
  "fst (certs_range x (Suc i) certs (leaf, pool)) = leaf"
  by (induction certs arbitrary: i pool) simp_all

lemma certs_range_leaf:
  "fst (certs_range x 0 (cert # rest) (leaf, pool)) = Some cert"
  by (simp add: certs_range_from_Suc)

lemma certs_range_empty: "certs_range x 0 [] (None, pool) = (None, pool)"
  by simp

lemma NewCertificateValidity_Cons:
  "NewCertificateValidity x (cert # rest) =
     (let opts = opts_after_range x (cert # rest);
          expired = (Now x < NotBefore cert \<or> NotAfter cert < Now x);
          v = \<lparr>Expired = expired, Error = None, Certificates = cert # rest,
               TrustedChains = Map.empty\<rparr>
      in if UnhandledCriticalExtensions cert \<noteq> []
         then Inr (v\<lparr>CertificateValidity.Error :=
                       Some (errorString ''unhandled critical extension'')\<rparr>, [Set_Expired expired])
         else case BuildChains x cert opts of
           (candidateChains, Some e) \<Rightarrow>
             Inr (v\<lparr>CertificateValidity.Error := Some e\<rparr>, [Set_Expired expired, Call_BuildChains])
         | (candidateChains, None) \<Rightarrow>
             (let chains = FilterChainsByKeyUsage x candidateChains [ExtKeyUsageServerAuth]
              in if chains = []
                 then Inr (v\<lparr>CertificateValidity.Error :=
                               Some (CertificateInvalidError cert IncompatibleUsage)\<rparr>,
                           [Set_Expired expired, Call_BuildChains, Call_FilterChainsByKeyUsage])
                 else Inr (v\<lparr>TrustedChains := [''system'' \<mapsto> hd chains]\<rparr>,
                           [Set_Expired expired, Call_BuildChains, Call_FilterChainsByKeyUsage])))"
proof -
  obtain pool where r: "certs_range x 0 (cert # rest) (None, NewCertPool x) = (Some cert, pool)"
    using certs_range_leaf [of x cert rest None "NewCertPool x"]
    by (cases "certs_range x 0 (cert # rest) (None, NewCertPool x)") simp
  then have o: "opts_after_range x (cert # rest)
                  = \<lparr>CurrentTime = Now x, Intermediates = pool, Roots = SystemRootsPool x\<rparr>"
    unfolding opts_after_range_def by simp
  show ?thesis
    unfolding NewCertificateValidity_def o
    using r
    by (simp add: deref_def Let_def hd_conv_nth split: prod.splits option.splits)
qed

text \<open>
  C7: for a sequence of certificates that is not empty, \<open>Expired\<close> of the result is true
  exactly when the current time is before the leaf's not-before or after its not-after,
  whatever happens later; the assignment is the first thing the function does that can
  be seen, so no call of the chain builder comes before it.
\<close>

theorem NewCertificateValidity_Expired:
  "certs \<noteq> [] \<Longrightarrow>
   \<exists>v tr. NewCertificateValidity x certs = Inr (v, Set_Expired (Expired v) # tr) \<and>
          Expired v = (Now x < NotBefore (hd certs) \<or> NotAfter (hd certs) < Now x)"
proof -
  assume "certs \<noteq> []"
  then obtain cert rest where c: "certs = cert # rest" by (cases certs) auto
  show ?thesis
    unfolding c NewCertificateValidity_Cons
    by (simp add: Let_def split: prod.splits option.splits)
qed

theorem NewCertificateValidity_Expired_witness:
  "\<exists>v tr. NewCertificateValidity (list_x509 True) [cert_old, cert_current]
            = Inr (v, Set_Expired (Expired v) # tr) \<and> Expired v = True"
proof -
  have h: "[cert_old, cert_current] \<noteq> []" by simp
  have e: "(Now (list_x509 True) < NotBefore (hd [cert_old, cert_current]) \<or>
            NotAfter (hd [cert_old, cert_current]) < Now (list_x509 True)) = True"
    by (simp add: list_x509_def cert_old_def)
  show ?thesis
    using NewCertificateValidity_Expired [OF h, of "list_x509 True"] unfolding e by blast
qed

text \<open>
  C8: for a sequence that is not empty and whose leaf has an unhandled critical
  extension, the function returns with the error \<open>''unhandled critical extension''\<close>,
  an empty \<open>TrustedChains\<close>, and without having called the chain builder.
\<close>

theorem NewCertificateValidity_critical_extension:
  "certs \<noteq> [] \<Longrightarrow> UnhandledCriticalExtensions (hd certs) \<noteq> [] \<Longrightarrow>
   \<exists>v tr. NewCertificateValidity x certs = Inr (v, tr) \<and>
          CertificateValidity.Error v = Some (errorString ''unhandled critical extension'') \<and>
          map_option error_Error (CertificateValidity.Error v) = Some ''unhandled critical extension'' \<and>
          TrustedChains v = Map.empty \<and>
          Call_BuildChains \<notin> set tr \<and> Call_FilterChainsByKeyUsage \<notin> set tr"
proof -
  assume "certs \<noteq> []" and u: "UnhandledCriticalExtensions (hd certs) \<noteq> []"
  then obtain cert rest where c: "certs = cert # rest" by (cases certs) auto
  from u show ?thesis
    unfolding c NewCertificateValidity_Cons by (simp add: Let_def)
qed

theorem NewCertificateValidity_critical_extension_witness:
  "\<exists>v tr. NewCertificateValidity (list_x509 True) [cert_critical, cert_current] = Inr (v, tr) \<and>
          CertificateValidity.Error v = Some (errorString ''unhandled critical extension'') \<and>
          TrustedChains v = Map.empty \<and> Call_BuildChains \<notin> set tr"
proof -
  have h: "[cert_critical, cert_current] \<noteq> []" by simp
  have u: "UnhandledCriticalExtensions (hd [cert_critical, cert_current]) \<noteq> []"
    by (simp add: cert_critical_def)
  show ?thesis
    using NewCertificateValidity_critical_extension [OF h u, of "list_x509 True"] by blast
qed

text \<open>
  C9: when the leaf has no unhandled critical extension and the chain builder returns
  candidate chains without an error, the chains are filtered for server authentication;
  if a chain is left, the first one is stored under the key \<open>''system''\<close>, the only key
  of \<open>TrustedChains\<close>, and \<open>Error\<close> stays nil; if none is left, \<open>Error\<close> is the
  incompatible-usage certificate error for the leaf and \<open>TrustedChains\<close> stays empty.
\<close>

theorem NewCertificateValidity_chains:
  "certs \<noteq> [] \<Longrightarrow> UnhandledCriticalExtensions (hd certs) = [] \<Longrightarrow>
   BuildChains x (hd certs) (opts_after_range x certs) = (candidateChains, None) \<Longrightarrow>
   surviving = FilterChainsByKeyUsage x candidateChains [ExtKeyUsageServerAuth] \<Longrightarrow>
   \<exists>v tr. NewCertificateValidity x certs = Inr (v, tr) \<and>
     (surviving \<noteq> [] \<longrightarrow>
        TrustedChains v = [''system'' \<mapsto> hd surviving] \<and> dom (TrustedChains v) = {''system''} \<and>
        CertificateValidity.Error v = None) \<and>
     (surviving = [] \<longrightarrow>
        CertificateValidity.Error v = Some (CertificateInvalidError (hd certs) IncompatibleUsage) \<and>
        TrustedChains v = Map.empty)"
proof -
  assume "certs \<noteq> []"
  then obtain cert rest where c: "certs = cert # rest" by (cases certs) auto
  assume "UnhandledCriticalExtensions (hd certs) = []"
    and "BuildChains x (hd certs) (opts_after_range x certs) = (candidateChains, None)"
    and "surviving = FilterChainsByKeyUsage x candidateChains [ExtKeyUsageServerAuth]"
  then show ?thesis
    unfolding c NewCertificateValidity_Cons by (simp add: Let_def)
qed

theorem NewCertificateValidity_chains_witness:
  "(\<exists>v tr. NewCertificateValidity (list_x509 True) [cert_current, cert_old] = Inr (v, tr) \<and>
      TrustedChains v = [''system'' \<mapsto> [cert_current, cert_old]] \<and>
      CertificateValidity.Error v = None) \<and>
   (\<exists>v tr. NewCertificateValidity (list_x509 False) [cert_current, cert_old] = Inr (v, tr) \<and>
      CertificateValidity.Error v = Some (CertificateInvalidError cert_current IncompatibleUsage) \<and>
      TrustedChains v = Map.empty)"
proof -
  let ?certs = "[cert_current, cert_old]"
  let ?cands = "[[cert_current, cert_old], [cert_current]]"
  have h: "?certs \<noteq> []" by simp
  have u: "UnhandledCriticalExtensions (hd ?certs) = []"
    by (simp add: cert_current_def)
  have b: "BuildChains (list_x509 usable) (hd ?certs) (opts_after_range (list_x509 usable) ?certs)
             = (?cands, None)" for usable
    by (simp add: list_x509_def opts_after_range_def)
  have f1: "?cands = FilterChainsByKeyUsage (list_x509 True) ?cands [ExtKeyUsageServerAuth]"
    by (simp add: list_x509_def)
  have f2: "[] = FilterChainsByKeyUsage (list_x509 False) ?cands [ExtKeyUsageServerAuth]"
    by (simp add: list_x509_def)
  have "\<exists>v tr. NewCertificateValidity (list_x509 True) ?certs = Inr (v, tr) \<and>
      TrustedChains v = [''system'' \<mapsto> [cert_current, cert_old]] \<and>
      CertificateValidity.Error v = None"
    using NewCertificateValidity_chains [OF h u b f1] by auto
  moreover have "\<exists>v tr. NewCertificateValidity (list_x509 False) ?certs = Inr (v, tr) \<and>
      CertificateValidity.Error v = Some (CertificateInvalidError cert_current IncompatibleUsage) \<and>
      TrustedChains v = Map.empty"
    using NewCertificateValidity_chains [OF h u b f2] by auto
  ultimately show ?thesis by blast
qed

section \<open>Properties of the certificate validity on a slice with nil elements\<close>











section \<open>Properties of the host summary\<close>

text \<open>What \<open>Append\<close> does to each field of a summary whose two sets are both nil or both set.\<close>

lemma Append_fields:
  assumes "Append z s g = Inr s'"
    and "(tlsVersions s = None) = (tlsCipherSuites s = None)"
  shows "address s' = address s" "Updated s' = Updated s" "Starttls s' = Starttls s"
    "MxHostSummary.Error s' = MxHostSummary.Error s"
    "fingerprints s' = fingerprints s" "validity s' = validity s"
    "MxHostSummary.certificates s' =
       (if MxHostSummary.certificates s = None then MxHostGrab.certificates g
        else MxHostSummary.certificates s)"
    "tlsVersions s' =
       (if tlsVersion g \<noteq> 0
        then Some (insert (TLSVersion_Bytes z (tlsVersion g))
                     (case tlsVersions s of None \<Rightarrow> {} | Some S \<Rightarrow> S))
        else tlsVersions s)"
    "tlsCipherSuites s' =
       (if tlsVersion g \<noteq> 0
        then Some (insert (CipherSuite_Bytes z (tlsCipherSuite g))
                     (case tlsCipherSuites s of None \<Rightarrow> {} | Some S \<Rightarrow> S))
        else tlsCipherSuites s)"
    "ecdheCurveType s' =
       (if tlsVersion g \<noteq> 0 \<and> ecdheCurveType s = None
        then (case dhParams g of dh_ECDHEParams p \<Rightarrow> Some (CurveType p) | _ \<Rightarrow> None)
        else ecdheCurveType s)"
    "ecdheCurveId s' =
       (if tlsVersion g \<noteq> 0 \<and> ecdheCurveType s = None
        then (case dhParams g of dh_ECDHEParams p \<Rightarrow> Some (CurveID p) | _ \<Rightarrow> ecdheCurveId s)
        else ecdheCurveId s)"
    "ecdheKeyLength s' =
       (if tlsVersion g \<noteq> 0 \<and> ecdheCurveType s = None
        then (case dhParams g of dh_ECDHEParams p \<Rightarrow> Some (PublicKeyLength p) | _ \<Rightarrow> ecdheKeyLength s)
        else ecdheKeyLength s)"
    "(tlsVersions s' = None) = (tlsCipherSuites s' = None)"
  using assms
  by (auto simp: Append_def deref_def Let_def split: if_splits option.splits dhParams.splits)

lemma set_fingerprints_validity_fields:
  assumes "set_fingerprints_validity x r = Inr s"
  shows "address s = address r" "Updated s = Updated r" "Starttls s = Starttls r"
    "MxHostSummary.Error s = MxHostSummary.Error r"
    "MxHostSummary.certificates s = MxHostSummary.certificates r"
    "tlsVersions s = tlsVersions r" "tlsCipherSuites s = tlsCipherSuites r"
    "ecdheCurveType s = ecdheCurveType r" "ecdheCurveId s = ecdheCurveId r"
    "ecdheKeyLength s = ecdheKeyLength r"
  using assms
  by (auto simp: set_fingerprints_validity_def and_then_def split: option.splits sum.splits)

text \<open>The four ways through \<open>NewMxHostSummary\<close> that return a summary.\<close>

lemma NewMxHostSummary_paths:
  assumes "NewMxHostSummary z x addr = Inr (s, probes)"
    and "NewMxHostGrab z addr VersionTLS12 = Inr g1"
    and "base = (MxHostSummary_new z addr)\<lparr>Starttls := starttls g1,
                   MxHostSummary.Error := MxHostGrab.Error g1\<rparr>"
  shows
    "(starttls g1 \<noteq> Some True \<and> probes = [VersionTLS12] \<and> s = base) \<or>
     (starttls g1 = Some True \<and> \<not> VersionTLS10 < tlsVersion g1 \<and> probes = [VersionTLS12] \<and>
        (\<exists>r1. Append z base g1 = Inr r1 \<and> set_fingerprints_validity x r1 = Inr s)) \<or>
     (starttls g1 = Some True \<and> VersionTLS10 < tlsVersion g1 \<and>
        probes = [VersionTLS12, VersionTLS10] \<and>
        (\<exists>g2 r1. NewMxHostGrab z addr VersionTLS10 = Inr g2 \<and> \<not> TLSSuccessful g2 \<and>
           Append z base g1 = Inr r1 \<and> set_fingerprints_validity x r1 = Inr s)) \<or>
     (starttls g1 = Some True \<and> VersionTLS10 < tlsVersion g1 \<and>
        probes = [VersionTLS12, VersionTLS10] \<and>
        (\<exists>g2 r1 r2. NewMxHostGrab z addr VersionTLS10 = Inr g2 \<and> TLSSuccessful g2 \<and>
           Append z base g1 = Inr r1 \<and> Append z r1 g2 = Inr r2 \<and>
           set_fingerprints_validity x r2 = Inr s))"
proof (cases "starttls g1 = Some True")
  case False
  have "set_fingerprints_validity x base = Inr base"
    unfolding assms(3) by (simp add: set_fingerprints_validity_def MxHostSummary_new_def)
  with False assms show ?thesis
    by (simp add: NewMxHostSummary_def and_then_def Let_def)
next
  case True
  with assms obtain r1 where r1: "Append z base g1 = Inr r1"
    by (cases "Append z base g1") (simp_all add: NewMxHostSummary_def and_then_def Let_def)
  show ?thesis
  proof (cases "VersionTLS10 < tlsVersion g1")
    case False
    with True assms r1 show ?thesis
      by (auto simp: NewMxHostSummary_def and_then_def Let_def split: sum.splits)
  next
    case lt: True
    with True assms r1 obtain g2 where g2: "NewMxHostGrab z addr VersionTLS10 = Inr g2"
      by (cases "NewMxHostGrab z addr VersionTLS10")
         (simp_all add: NewMxHostSummary_def and_then_def Let_def)
    show ?thesis
    proof (cases "TLSSuccessful g2")
      case False
      with True lt assms r1 g2 show ?thesis
        by (auto simp: NewMxHostSummary_def and_then_def Let_def split: sum.splits)
    next
      case ok: True
      with True lt assms r1 g2 obtain r2 where "Append z r1 g2 = Inr r2"
        by (cases "Append z r1 g2") (simp_all add: NewMxHostSummary_def and_then_def Let_def)
      with ok True lt assms r1 g2 show ?thesis
        by (auto simp: NewMxHostSummary_def and_then_def Let_def split: sum.splits)
    qed
  qed
qed

text \<open>The summary evaluated on two hosts.\<close>

lemma dhe_then_ecdhe_first_grab:
  "NewMxHostGrab dhe_then_ecdhe_host [203, 0, 113, 5] VersionTLS12 =
     Inr \<lparr>starttls = Some True, tlsVersion = 0x0303, tlsCipherSuite = 0x009E,
          certificates = Some [cert_current], dhParams = dh_other, Error = None\<rparr>"
  by (simp add: NewMxHostGrab_def dhe_then_ecdhe_host_def banner_entry_def and_then_def
        deref_def MxHostGrab_zero_def)

lemma dhe_then_ecdhe_second_grab:
  "NewMxHostGrab dhe_then_ecdhe_host [203, 0, 113, 5] VersionTLS10 =
     Inr \<lparr>starttls = Some True, tlsVersion = 0x0301, tlsCipherSuite = 0xC013,
          certificates = Some [cert_current],
          dhParams = dh_ECDHEParams \<lparr>CurveType = 3, CurveID = 23, PublicKeyLength = 65\<rparr>,
          Error = None\<rparr>"
  by (simp add: NewMxHostGrab_def dhe_then_ecdhe_host_def banner_entry_def and_then_def
        deref_def MxHostGrab_zero_def VersionTLS10_def VersionTLS12_def)

lemma validity_cert_current:
  "NewCertificateValidity (list_x509 True) [cert_current] =
     Inr (\<lparr>Expired = False, Error = None, Certificates = [cert_current],
           TrustedChains = [''system'' \<mapsto> [cert_current]]\<rparr>,
          [Set_Expired False, Call_BuildChains, Call_FilterChainsByKeyUsage])"
  by (simp add: NewCertificateValidity_Cons opts_after_range_def list_x509_def cert_current_def)

lemma cert_current_fingerprint: "FingerprintSHA1 cert_current = [1, 2, 3]"
  by (simp add: cert_current_def)

lemma dhe_then_ecdhe_summary:
  "NewMxHostSummary dhe_then_ecdhe_host (list_x509 True) [203, 0, 113, 5] =
     Inr (\<lparr>address = [203, 0, 113, 5], Updated = 1000, Starttls = Some True,
           tlsVersions = Some {''TLSv1.0'', ''TLSv1.2''},
           tlsCipherSuites = Some {''ECDHE-RSA-AES128-SHA'', ''DHE-RSA-AES128-GCM-SHA256''},
           certificates = Some [cert_current], fingerprints = Some [[1, 2, 3]],
           validity = Some \<lparr>Expired = False, Error = None, Certificates = [cert_current],
                             TrustedChains = [''system'' \<mapsto> [cert_current]]\<rparr>,
           ecdheCurveType = Some 3, ecdheCurveId = Some 23, ecdheKeyLength = Some 65,
           Error = None\<rparr>,
          [VersionTLS12, VersionTLS10])"
  unfolding NewMxHostSummary_def dhe_then_ecdhe_first_grab dhe_then_ecdhe_second_grab
  by (simp add: and_then_def Append_def deref_def MxHostSummary_new_def TLSSuccessful_def
        set_fingerprints_validity_def validity_cert_current Fingerprints_def
        VersionTLS10_def dhe_then_ecdhe_host_def cert_current_fingerprint)

lemma tls12_only_first_grab:
  "NewMxHostGrab tls12_only_host [203, 0, 113, 5] VersionTLS12 =
     Inr \<lparr>starttls = Some True, tlsVersion = 0x0303, tlsCipherSuite = 0x009E,
          certificates = Some [cert_current], dhParams = dh_other, Error = None\<rparr>"
  by (simp add: NewMxHostGrab_def tls12_only_host_def banner_entry_def and_then_def
        deref_def MxHostGrab_zero_def)

lemma tls12_only_second_grab:
  "NewMxHostGrab tls12_only_host [203, 0, 113, 5] VersionTLS10 =
     Inr \<lparr>starttls = None, tlsVersion = 0, tlsCipherSuite = 0, certificates = None,
          dhParams = dh_nil, Error = Some ''connection refused''\<rparr>"
  by (simp add: NewMxHostGrab_def tls12_only_host_def banner_entry_def and_then_def
        deref_def MxHostGrab_zero_def VersionTLS10_def VersionTLS12_def
        simplifyError_def stripErrors_def HasPrefix_def LastIndex_def)

lemma tls12_only_summary:
  "NewMxHostSummary tls12_only_host (list_x509 True) [203, 0, 113, 5] =
     Inr (\<lparr>address = [203, 0, 113, 5], Updated = 1000, Starttls = Some True,
           tlsVersions = Some {''TLSv1.2''},
           tlsCipherSuites = Some {''DHE-RSA-AES128-GCM-SHA256''},
           certificates = Some [cert_current], fingerprints = Some [[1, 2, 3]],
           validity = Some \<lparr>Expired = False, Error = None, Certificates = [cert_current],
                             TrustedChains = [''system'' \<mapsto> [cert_current]]\<rparr>,
           ecdheCurveType = None, ecdheCurveId = None, ecdheKeyLength = None,
           Error = None\<rparr>,
          [VersionTLS12, VersionTLS10])"
  unfolding NewMxHostSummary_def tls12_only_first_grab tls12_only_second_grab
  by (simp add: and_then_def Append_def deref_def MxHostSummary_new_def TLSSuccessful_def
        set_fingerprints_validity_def validity_cert_current Fingerprints_def
        VersionTLS10_def tls12_only_host_def cert_current_fingerprint)

text \<open>
  C5 (as the code has it): the second probe, capped at TLS 1.0, is made exactly when the
  first grab's STARTTLS succeeded and its TLS version is above TLS 1.0. The STARTTLS
  flag and the error of the summary are those of the first grab. The certificates and
  the ECDHE parameters that the first grab supplies are kept. A second grab without
  certificates leaves the summary as the first grab alone made it. A second grab with
  certificates adds its version and cipher suite to the two sets and fills what the first
  grab left unset: the certificates when the first grab had none, the ECDHE parameters
  when the first grab's were not ECDHE parameters.
\<close>

theorem NewMxHostSummary_merge:
  assumes "NewMxHostSummary z x addr = Inr (s, probes)"
    and "NewMxHostGrab z addr VersionTLS12 = Inr g1"
  shows
    "probes = (if starttls g1 = Some True \<and> VersionTLS10 < tlsVersion g1
               then [VersionTLS12, VersionTLS10] else [VersionTLS12]) \<and>
     Starttls s = starttls g1 \<and> MxHostSummary.Error s = MxHostGrab.Error g1 \<and>
     (starttls g1 = Some True \<longrightarrow>
        (MxHostGrab.certificates g1 \<noteq> None \<longrightarrow>
           MxHostSummary.certificates s = MxHostGrab.certificates g1) \<and>
        (\<forall>p. tlsVersion g1 \<noteq> 0 \<and> dhParams g1 = dh_ECDHEParams p \<longrightarrow>
           ecdheCurveType s = Some (CurveType p) \<and> ecdheCurveId s = Some (CurveID p) \<and>
           ecdheKeyLength s = Some (PublicKeyLength p))) \<and>
     (starttls g1 = Some True \<and> VersionTLS10 < tlsVersion g1 \<longrightarrow>
        (\<exists>g2. NewMxHostGrab z addr VersionTLS10 = Inr g2 \<and>
           (\<not> TLSSuccessful g2 \<longrightarrow>
              (\<exists>r1. Append z ((MxHostSummary_new z addr)\<lparr>Starttls := starttls g1,
                                  MxHostSummary.Error := MxHostGrab.Error g1\<rparr>) g1 = Inr r1 \<and>
                    set_fingerprints_validity x r1 = Inr s)) \<and>
           (TLSSuccessful g2 \<longrightarrow>
              tlsVersions s =
                Some ({TLSVersion_Bytes z (tlsVersion g1)} \<union>
                      (if tlsVersion g2 \<noteq> 0 then {TLSVersion_Bytes z (tlsVersion g2)} else {})) \<and>
              tlsCipherSuites s =
                Some ({CipherSuite_Bytes z (tlsCipherSuite g1)} \<union>
                      (if tlsVersion g2 \<noteq> 0 then {CipherSuite_Bytes z (tlsCipherSuite g2)} else {})) \<and>
              MxHostSummary.certificates s =
                (if MxHostGrab.certificates g1 = None then MxHostGrab.certificates g2
                 else MxHostGrab.certificates g1) \<and>
              (ecdheCurveType s, ecdheCurveId s, ecdheKeyLength s) =
                (case dhParams g1 of
                   dh_ECDHEParams p \<Rightarrow>
                     (Some (CurveType p), Some (CurveID p), Some (PublicKeyLength p))
                 | _ \<Rightarrow>
                     (if tlsVersion g2 \<noteq> 0
                      then (case dhParams g2 of
                              dh_ECDHEParams p \<Rightarrow>
                                (Some (CurveType p), Some (CurveID p), Some (PublicKeyLength p))
                            | _ \<Rightarrow> (None, None, None))
                      else (None, None, None))))))"
proof -
  define base where "base = (MxHostSummary_new z addr)\<lparr>Starttls := starttls g1,
                       MxHostSummary.Error := MxHostGrab.Error g1\<rparr>"
  have b: "(tlsVersions base = None) = (tlsCipherSuites base = None)"
    "MxHostSummary.certificates base = None" "tlsVersions base = None"
    "tlsCipherSuites base = None" "ecdheCurveType base = None" "ecdheCurveId base = None"
    "ecdheKeyLength base = None" "Starttls base = starttls g1"
    "MxHostSummary.Error base = MxHostGrab.Error g1"
    by (simp_all add: base_def MxHostSummary_new_def)
  have zero: "\<not> VersionTLS10 < (0 :: 16 word)" by simp
  consider
      (none) "starttls g1 \<noteq> Some True" "probes = [VersionTLS12]" "s = base"
    | (one) r1 where "starttls g1 = Some True" "\<not> VersionTLS10 < tlsVersion g1"
        "probes = [VersionTLS12]" "Append z base g1 = Inr r1"
        "set_fingerprints_validity x r1 = Inr s"
    | (failed) g2 r1 where "starttls g1 = Some True" "VersionTLS10 < tlsVersion g1"
        "probes = [VersionTLS12, VersionTLS10]" "NewMxHostGrab z addr VersionTLS10 = Inr g2"
        "\<not> TLSSuccessful g2" "Append z base g1 = Inr r1"
        "set_fingerprints_validity x r1 = Inr s"
    | (merged) g2 r1 r2 where "starttls g1 = Some True" "VersionTLS10 < tlsVersion g1"
        "probes = [VersionTLS12, VersionTLS10]" "NewMxHostGrab z addr VersionTLS10 = Inr g2"
        "TLSSuccessful g2" "Append z base g1 = Inr r1" "Append z r1 g2 = Inr r2"
        "set_fingerprints_validity x r2 = Inr s"
    using NewMxHostSummary_paths [OF assms base_def] by blast
  then show ?thesis
  proof cases
    case none
    with b show ?thesis by simp
  next
    case one
    note f = set_fingerprints_validity_fields [OF one(5)] Append_fields [OF one(4) b(1)]
    from one(1-3) show ?thesis
      unfolding f using b by (auto split: dhParams.splits)
  next
    case failed
    note f = set_fingerprints_validity_fields [OF failed(7)] Append_fields [OF failed(6) b(1)]
    from failed(1-5) failed(6,7) [unfolded base_def] show ?thesis
      unfolding f using b by (auto split: dhParams.splits)
  next
    case merged
    note f1 = Append_fields [OF merged(6) b(1)]
    note f2 = Append_fields [OF merged(7) f1(13)]
    note f = set_fingerprints_validity_fields [OF merged(8)]
    from merged(2) zero have nz: "tlsVersion g1 \<noteq> 0" by auto
    have "(ecdheCurveType s, ecdheCurveId s, ecdheKeyLength s) =
                (case dhParams g1 of
                   dh_ECDHEParams p \<Rightarrow>
                     (Some (CurveType p), Some (CurveID p), Some (PublicKeyLength p))
                 | _ \<Rightarrow>
                     (if tlsVersion g2 \<noteq> 0
                      then (case dhParams g2 of
                              dh_ECDHEParams p \<Rightarrow>
                                (Some (CurveType p), Some (CurveID p), Some (PublicKeyLength p))
                            | _ \<Rightarrow> (None, None, None))
                      else (None, None, None)))"
      unfolding f f2 f1 using nz b by (auto split: dhParams.splits)
    moreover have "tlsVersions s =
                Some ({TLSVersion_Bytes z (tlsVersion g1)} \<union>
                      (if tlsVersion g2 \<noteq> 0 then {TLSVersion_Bytes z (tlsVersion g2)} else {}))"
      unfolding f f2 f1 using nz b by auto
    moreover have "tlsCipherSuites s =
                Some ({CipherSuite_Bytes z (tlsCipherSuite g1)} \<union>
                      (if tlsVersion g2 \<noteq> 0 then {CipherSuite_Bytes z (tlsCipherSuite g2)} else {}))"
      unfolding f f2 f1 using nz b by auto
    moreover have "MxHostSummary.certificates s =
                (if MxHostGrab.certificates g1 = None then MxHostGrab.certificates g2
                 else MxHostGrab.certificates g1)"
      unfolding f f2 f1 using b by auto
    moreover have "Starttls s = starttls g1" "MxHostSummary.Error s = MxHostGrab.Error g1"
      unfolding f f2 f1 using b by auto
    moreover have "\<forall>p. tlsVersion g1 \<noteq> 0 \<and> dhParams g1 = dh_ECDHEParams p \<longrightarrow>
           ecdheCurveType s = Some (CurveType p) \<and> ecdheCurveId s = Some (CurveID p) \<and>
           ecdheKeyLength s = Some (PublicKeyLength p)"
      using calculation(1) by auto
    ultimately show ?thesis
      using merged(1-5) by simp
  qed
qed

theorem NewMxHostSummary_merge_witness:
  "(\<exists>g2. NewMxHostGrab dhe_then_ecdhe_host [203, 0, 113, 5] VersionTLS10 = Inr g2 \<and>
          TLSSuccessful g2) \<and>
   (\<exists>g2. NewMxHostGrab tls12_only_host [203, 0, 113, 5] VersionTLS10 = Inr g2 \<and>
          \<not> TLSSuccessful g2)"
proof -
  have lt: "VersionTLS10 < (0x0303 :: 16 word)"
    by (simp add: VersionTLS10_def)
  have "\<exists>g2. NewMxHostGrab dhe_then_ecdhe_host [203, 0, 113, 5] VersionTLS10 = Inr g2 \<and>
          TLSSuccessful g2"
    using NewMxHostSummary_merge [OF dhe_then_ecdhe_summary dhe_then_ecdhe_first_grab] lt
    by (simp add: dhe_then_ecdhe_second_grab TLSSuccessful_def)
  moreover have "\<exists>g2. NewMxHostGrab tls12_only_host [203, 0, 113, 5] VersionTLS10 = Inr g2 \<and>
          \<not> TLSSuccessful g2"
    using NewMxHostSummary_merge [OF tls12_only_summary tls12_only_first_grab] lt
    by (simp add: tls12_only_second_grab TLSSuccessful_def)
  ultimately show ?thesis by blast
qed

text \<open>
  The claim as the specification words it fails: on a host that negotiates a DHE suite
  under TLS 1.2 and an ECDHE suite under TLS 1.0, the first grab has no ECDHE parameters
  and the summary holds those of the second grab.
\<close>

theorem NewMxHostSummary_first_grab_only_counterexample:
  "NewMxHostGrab dhe_then_ecdhe_host [203, 0, 113, 5] VersionTLS12 =
     Inr \<lparr>starttls = Some True, tlsVersion = 0x0303, tlsCipherSuite = 0x009E,
          certificates = Some [cert_current], dhParams = dh_other, Error = None\<rparr> \<and>
   NewMxHostSummary dhe_then_ecdhe_host (list_x509 True) [203, 0, 113, 5] =
     Inr (\<lparr>address = [203, 0, 113, 5], Updated = 1000, Starttls = Some True,
           tlsVersions = Some {''TLSv1.0'', ''TLSv1.2''},
           tlsCipherSuites = Some {''ECDHE-RSA-AES128-SHA'', ''DHE-RSA-AES128-GCM-SHA256''},
           certificates = Some [cert_current], fingerprints = Some [[1, 2, 3]],
           validity = Some \<lparr>Expired = False, Error = None, Certificates = [cert_current],
                             TrustedChains = [''system'' \<mapsto> [cert_current]]\<rparr>,
           ecdheCurveType = Some 3, ecdheCurveId = Some 23, ecdheKeyLength = Some 65,
           Error = None\<rparr>,
          [VersionTLS12, VersionTLS10])"
  using dhe_then_ecdhe_first_grab dhe_then_ecdhe_summary by simp

section \<open>Invariants of the DNS processor\<close>

lemma set_pc_simps [simp]:
  "threads (set_pc t p s) = (threads s)(t := p)"
  "jobs (set_pc t p s) = jobs s" "mutex (set_pc t p s) = mutex s"
  "workers (set_pc t p s) = workers s" "heap (set_pc t p s) = heap s"
  "added (set_pc t p s) = added s" "crashed (set_pc t p s) = crashed s"
  by (simp_all add: set_pc_def)

lemma NewJob_return_simps [simp]:
  "holds_mutex (NewJob_return c job) = False"
  "creator_job (NewJob_return c job) = None"
  "worker_job (NewJob_return c job) = None"
  by (cases c; auto)+

lemma mutex_holder: "mutex_ok s \<Longrightarrow> holds_mutex (threads s t) \<Longrightarrow> mutex s = Some t"
  by (simp add: mutex_ok_def)

lemma mutex_free: "mutex_ok s \<Longrightarrow> mutex s = None \<Longrightarrow> \<not> holds_mutex (threads s t)"
  by (simp add: mutex_ok_def)

lemma mutex_other:
  "mutex_ok s \<Longrightarrow> holds_mutex (threads s t) \<Longrightarrow> t' \<noteq> t \<Longrightarrow> \<not> holds_mutex (threads s t')"
  unfolding mutex_ok_def by (metis option.inject)

lemma mutex_ok_step:
  assumes "mutex_ok s"
  shows "mutex_ok (step t s)"
proof (cases "threads s t")
  case (NewJob_lock c q)
  with assms mutex_free [OF assms] show ?thesis
    by (auto simp: step_def mutex_ok_def)
next
  case (NewJob_check c q)
  with assms show ?thesis
    by (auto simp: step_def mutex_ok_def Let_def split: option.splits)
next
  case (NewJob_unlock c job exist)
  with assms mutex_holder [OF assms, of t] mutex_other [OF assms, of t] show ?thesis
    by (auto simp: step_def mutex_ok_def)
next
  case (NewJob_add c job exist)
  with assms show ?thesis
    by (auto simp: step_def mutex_ok_def)
next
  case (work_lock job)
  with assms mutex_free [OF assms] show ?thesis
    by (auto simp: step_def mutex_ok_def)
next
  case (work_delete job)
  with assms show ?thesis
    by (auto simp: step_def mutex_ok_def)
next
  case (work_unlock job)
  with assms mutex_holder [OF assms, of t] mutex_other [OF assms, of t] show ?thesis
    by (auto simp: step_def mutex_ok_def)
next
  case (work_Done job)
  with assms show ?thesis
    by (auto simp: step_def mutex_ok_def)
qed (use assms in \<open>auto simp: step_def mutex_ok_def split: option.splits\<close>)

lemma mutex_ok_perform:
  assumes "mutex_ok s"
  shows "mutex_ok (perform l a s)"
proof (cases a)
  case (Step t)
  with assms show ?thesis by (simp add: mutex_ok_step)
next
  case (Receive t)
  with assms show ?thesis
    by (cases "threads s t") (auto simp: receive_def mutex_ok_def split: list.splits)
next
  case (Answer t net)
  with assms show ?thesis
    by (cases "threads s t") (auto simp: work_lookup_def mutex_ok_def split: sum.splits)
next
  case (Call_NewJob t d ty)
  with assms show ?thesis by (cases "threads s t") (auto simp: mutex_ok_def)
next
  case (Call_NewJobs t d tys)
  with assms show ?thesis by (cases "threads s t") (auto simp: mutex_ok_def)
next
  case (Call_Wait t g)
  with assms show ?thesis by (cases "threads s t") (auto simp: mutex_ok_def)
next
  case (Call_Results t g)
  with assms show ?thesis by (cases "threads s t") (auto simp: mutex_ok_def)
qed

text \<open>The shapes of a transition: every action is one of these changes of the state.\<close>

lemma ready_classes:
  "ready p \<Longrightarrow> \<not> holds_mutex p \<and> creator_job p = None \<and> worker_job p = None"
  by (cases p) auto

lemma perform_cases:
  obtains
    (same) "perform l a s = s"
  | (crash) f where "perform l a s = s\<lparr>crashed := Some f\<rparr>"
  | (silent) t p where "perform l a s = set_pc t p s"
      "holds_mutex p = holds_mutex (threads s t)"
      "creator_job (threads s t) = None" "creator_job p = None"
      "worker_job (threads s t) = None" "worker_job p = None"
  | (lock) t p where "perform l a s = set_pc t p (s\<lparr>mutex := Some t\<rparr>)"
      "mutex s = None" "holds_mutex p"
      "creator_job (threads s t) = None" "creator_job p = None"
      "worker_job p = worker_job (threads s t)"
      "\<And>s'. worker_ok s' p = worker_ok s' (threads s t)"
  | (unlock) t p where "perform l a s = set_pc t p (s\<lparr>mutex := None\<rparr>)"
      "holds_mutex (threads s t)" "\<not> holds_mutex p"
      "creator_job p = creator_job (threads s t)"
      "worker_job p = worker_job (threads s t)"
      "\<And>s'. worker_ok s' p = worker_ok s' (threads s t)"
  | (alloc) t c q where "threads s t = NewJob_check c q" "jobs s q = None"
      "perform l a s =
         set_pc t (NewJob_unlock c (length (heap s)) False)
           (s\<lparr>heap := heap s @ [\<lparr>wait = 1, Query = q, Result = None\<rparr>],
              jobs := (jobs s)(q \<mapsto> length (heap s))\<rparr>)"
  | (add) t c job where "threads s t = NewJob_add c job False"
      "perform l a s =
         set_pc t (NewJob_return c job)
           (s\<lparr>workers := workers s @ [job], added := added s @ [job]\<rparr>)"
  | (receive) t job rest where "threads s t = Idle" "workers s = job # rest"
      "perform l a s = set_pc t (work_Lookup job) (s\<lparr>workers := rest\<rparr>)"
  | (written) t job r where "threads s t = work_Lookup job"
      "perform l a s =
         set_pc t (work_lock job)
           (s\<lparr>heap := (heap s)[job := (heap s ! job)\<lparr>Result := Some r\<rparr>]\<rparr>)"
  | (delete) t job where "threads s t = work_delete job"
      "perform l a s =
         set_pc t (work_unlock job) (s\<lparr>jobs := (jobs s)(Query (heap s ! job) := None)\<rparr>)"
  | (finish) t job where "threads s t = work_Done job" "wait (heap s ! job) \<noteq> 0"
      "perform l a s =
         set_pc t Idle
           (s\<lparr>heap := (heap s)[job := (heap s ! job)\<lparr>wait := wait (heap s ! job) - 1\<rparr>]\<rparr>)"
proof (cases a)
  case (Call_NewJob t d ty)
  show thesis
  proof (cases "ready (threads s t)")
    case True
    with Call_NewJob ready_classes [OF True] show thesis
      by (intro silent [of t "NewJob_lock None \<lparr>Domain' = d, Type = ty\<rparr>"]) simp_all
  next
    case False
    with Call_NewJob show thesis by (intro same) simp
  qed
next
  case (Call_NewJobs t d tys)
  show thesis
  proof (cases "ready (threads s t)")
    case True
    with Call_NewJobs ready_classes [OF True] show thesis
      by (intro silent [of t "NewJobs_range d tys 0 []"]) simp_all
  next
    case False
    with Call_NewJobs show thesis by (intro same) simp
  qed
next
  case (Call_Wait t g)
  show thesis
  proof (cases "ready (threads s t) \<and> (\<forall>job\<in>set g. job < length (heap s))")
    case True
    then have "ready (threads s t)" by simp
    from Call_Wait True ready_classes [OF this] show thesis
      by (intro silent [of t "Wait_range g 0"]) simp_all
  next
    case False
    with Call_Wait show thesis by (intro same) auto
  qed
next
  case (Call_Results t g)
  show thesis
  proof (cases "ready (threads s t) \<and> (\<forall>job\<in>set g. job < length (heap s))")
    case True
    then have "ready (threads s t)" by simp
    from Call_Results True ready_classes [OF this] show thesis
      by (intro silent [of t "Results_wait g 0 []"]) simp_all
  next
    case False
    with Call_Results show thesis by (intro same) auto
  qed
next
  case (Receive t)
  show thesis
  proof (cases "threads s t = Idle \<and> workers s \<noteq> []")
    case True
    then obtain job rest where "workers s = job # rest" by (cases "workers s") auto
    with Receive True show thesis
      by (intro receive [of t job rest]) (simp_all add: receive_def)
  next
    case False
    with Receive show thesis
      by (intro same) (auto simp: receive_def split: pc.splits list.splits)
  qed
next
  case (Answer t net)
  show thesis
  proof (cases "threads s t")
    case (work_Lookup job)
    show thesis
    proof (cases "Lookup l net (Query (heap s ! job))")
      case (Inl f)
      with Answer work_Lookup show thesis
        by (intro crash [of f]) (simp add: work_lookup_def)
    next
      case (Inr r)
      with Answer work_Lookup show thesis
        by (intro written [of t job r]) (simp_all add: work_lookup_def)
    qed
  qed (use Answer in \<open>(intro same, simp add: work_lookup_def)+\<close>)
next
  case (Step t)
  show thesis
  proof (cases "threads s t")
    case (NewJob_lock c q)
    show thesis
    proof (cases "mutex s = None")
      case True
      with Step NewJob_lock show thesis
        by (intro lock [of t "NewJob_check c q"]) (simp_all add: step_def)
    next
      case False
      with Step NewJob_lock show thesis by (intro same) (auto simp: step_def)
    qed
  next
    case (NewJob_check c q)
    show thesis
    proof (cases "jobs s q")
      case None
      with Step NewJob_check show thesis
        by (intro alloc [of t c q]) (simp_all add: step_def Let_def)
    next
      case (Some job)
      with Step NewJob_check show thesis
        by (intro silent [of t "NewJob_unlock c job True"]) (simp_all add: step_def)
    qed
  next
    case (NewJob_unlock c job exist)
    show thesis
    proof (cases "mutex s = None")
      case True
      with Step NewJob_unlock show thesis
        by (intro crash [of UnlockOfUnlockedMutex]) (simp add: step_def)
    next
      case False
      with Step NewJob_unlock show thesis
        by (intro unlock [of t "NewJob_add c job exist"]) (auto simp: step_def)
    qed
  next
    case (NewJob_add c job exist)
    show thesis
    proof (cases exist)
      case True
      with Step NewJob_add show thesis
        by (intro silent [of t "NewJob_return c job"]) (simp_all add: step_def)
    next
      case False
      with Step NewJob_add show thesis
        by (intro add [of t c job]) (simp_all add: step_def WorkerPool_Add_def)
    qed
  next
    case (NewJobs_range d tys i g)
    show thesis
    proof (cases "i < length tys")
      case True
      with Step NewJobs_range show thesis
        by (intro silent [of t "NewJob_lock (Some (d, tys, i, g)) \<lparr>Domain' = d, Type = tys ! i\<rparr>"])
           (simp_all add: step_def)
    next
      case False
      with Step NewJobs_range show thesis
        by (intro silent [of t "NewJobs_returned d tys g"]) (simp_all add: step_def)
    qed
  next
    case (Wait_range g i)
    consider (adv) "i < length g" "wait (heap s ! (g ! i)) = 0"
      | (blk) "i < length g" "wait (heap s ! (g ! i)) \<noteq> 0" | (ret) "\<not> i < length g"
      by blast
    then show thesis
    proof cases
      case adv
      with Step Wait_range show thesis
        by (intro silent [of t "Wait_range g (Suc i)"]) (simp_all add: step_def)
    next
      case blk
      with Step Wait_range show thesis by (intro same) (auto simp: step_def)
    next
      case ret
      with Step Wait_range show thesis
        by (intro silent [of t "Wait_returned g"]) (simp_all add: step_def)
    qed
  next
    case (Results_wait g i rs)
    consider (adv) "i < length g" "wait (heap s ! (g ! i)) = 0"
      | (blk) "i < length g" "wait (heap s ! (g ! i)) \<noteq> 0" | (ret) "\<not> i < length g"
      by blast
    then show thesis
    proof cases
      case adv
      with Step Results_wait show thesis
        by (intro silent [of t "Results_read g i rs"]) (simp_all add: step_def)
    next
      case blk
      with Step Results_wait show thesis by (intro same) (auto simp: step_def)
    next
      case ret
      with Step Results_wait show thesis
        by (intro silent [of t "Results_returned g rs"]) (simp_all add: step_def)
    qed
  next
    case (Results_read g i rs)
    show thesis
    proof (cases "Result (heap s ! (g ! i))")
      case None
      with Step Results_read show thesis
        by (intro crash [of NilPointerDereference]) (simp add: step_def)
    next
      case (Some r)
      with Step Results_read show thesis
        by (intro silent [of t "Results_wait g (Suc i)
              (fold (\<lambda>item results. results @ [item]) (Results r) rs)"])
           (simp_all add: step_def)
    qed
  next
    case (work_lock job)
    show thesis
    proof (cases "mutex s = None")
      case True
      with Step work_lock show thesis
        by (intro lock [of t "work_delete job"]) (simp_all add: step_def)
    next
      case False
      with Step work_lock show thesis by (intro same) (auto simp: step_def)
    qed
  next
    case (work_delete job)
    with Step show thesis
      by (intro delete [of t job]) (simp_all add: step_def)
  next
    case (work_unlock job)
    show thesis
    proof (cases "mutex s = None")
      case True
      with Step work_unlock show thesis
        by (intro crash [of UnlockOfUnlockedMutex]) (simp add: step_def)
    next
      case False
      with Step work_unlock show thesis
        by (intro unlock [of t "work_Done job"]) (auto simp: step_def)
    qed
  next
    case (work_Done job)
    show thesis
    proof (cases "wait (heap s ! job) = 0")
      case True
      with Step work_Done show thesis
        by (intro crash [of NegativeWaitGroupCounter]) (simp add: step_def)
    next
      case False
      with Step work_Done show thesis
        by (intro finish [of t job]) (simp_all add: step_def)
    qed
  qed (use Step in \<open>(intro same, simp add: step_def)+\<close>)
qed

text \<open>Facts read off the invariants.\<close>

lemma worker_facts:
  "workers_ok s \<Longrightarrow> worker_job (threads s t) = Some job \<Longrightarrow>
   job \<in> set (added s) \<and> job \<notin> set (workers s) \<and> wait (heap s ! job) = 1 \<and>
   worker_ok s (threads s t)"
  unfolding workers_ok_def by blast

lemma worker_unique:
  "workers_ok s \<Longrightarrow> worker_job (threads s t) = Some job \<Longrightarrow>
   worker_job (threads s t') = Some job \<Longrightarrow> t = t'"
  unfolding workers_ok_def by blast

lemma creator_facts:
  "creators_ok s \<Longrightarrow> creator_job (threads s t) = Some job \<Longrightarrow>
   job < length (heap s) \<and> job \<notin> set (added s) \<and>
   jobs s (Query (heap s ! job)) = Some job \<and> Result (heap s ! job) = None"
  unfolding creators_ok_def by blast

lemma creator_unique:
  "creators_ok s \<Longrightarrow> creator_job (threads s t) = Some job \<Longrightarrow>
   creator_job (threads s t') = Some job \<Longrightarrow> t = t'"
  unfolding creators_ok_def by blast

lemma creator_exists:
  "creators_ok s \<Longrightarrow> job < length (heap s) \<Longrightarrow> job \<notin> set (added s) \<Longrightarrow>
   \<exists>t. creator_job (threads s t) = Some job"
  unfolding creators_ok_def by blast

lemma added_valid: "added_ok s \<Longrightarrow> job \<in> set (added s) \<Longrightarrow> job < length (heap s)"
  unfolding added_ok_def by auto

lemma queue_added: "added_ok s \<Longrightarrow> job \<in> set (workers s) \<Longrightarrow> job \<in> set (added s)"
  unfolding added_ok_def by auto

lemma queue_facts:
  "queue_ok s \<Longrightarrow> job \<in> set (workers s) \<Longrightarrow>
   jobs s (Query (heap s ! job)) = Some job \<and> Result (heap s ! job) = None"
  unfolding queue_ok_def by blast

lemma map_facts:
  "map_ok s \<Longrightarrow> jobs s q = Some job \<Longrightarrow>
   job < length (heap s) \<and> Query (heap s ! job) = q \<and> wait (heap s ! job) = 1"
  unfolding map_ok_def by blast

lemma worker_valid:
  "core s \<Longrightarrow> worker_job (threads s t) = Some job \<Longrightarrow> job < length (heap s)"
  using worker_facts [of s t job] added_valid [of s job] by (simp add: core_def)

lemma map_ok_perform:
  assumes "core s"
  shows "map_ok (perform l a s)"
proof -
  from assms have m: "map_ok s" and w: "workers_ok s" by (simp_all add: core_def)
  show ?thesis
    using perform_cases [of l a s]
  proof cases
    case same
    with m show ?thesis by simp
  next
    case crash
    with m show ?thesis by (simp add: map_ok_def)
  next
    case silent
    with m show ?thesis by (simp add: map_ok_def)
  next
    case lock
    with m show ?thesis by (simp add: map_ok_def)
  next
    case unlock
    with m show ?thesis by (simp add: map_ok_def)
  next
    case (alloc t c' q')
    with m show ?thesis by (auto simp: map_ok_def nth_append less_Suc_eq)
  next
    case add
    with m show ?thesis by (simp add: map_ok_def)
  next
    case receive
    with m show ?thesis by (simp add: map_ok_def)
  next
    case (written t job r)
    with worker_valid [OF assms, of t job] have "job < length (heap s)" by simp
    with written m show ?thesis by (auto simp: map_ok_def nth_list_update)
  next
    case delete
    with m show ?thesis by (auto simp: map_ok_def)
  next
    case (finish t job)
    with worker_facts [OF w, of t job] have "\<forall>q. jobs s q \<noteq> Some job" by simp
    moreover from finish worker_valid [OF assms, of t job] have "job < length (heap s)" by simp
    ultimately show ?thesis using finish m by (auto simp: map_ok_def nth_list_update)
  qed
qed

lemma added_ok_perform:
  assumes "core s"
  shows "added_ok (perform l a s)"
proof -
  from assms have a: "added_ok s" and c: "creators_ok s" by (simp_all add: core_def)
  show ?thesis
    using perform_cases [of l a s]
  proof cases
    case same
    with a show ?thesis by simp
  next
    case crash
    with a show ?thesis by (simp add: added_ok_def)
  next
    case silent
    with a show ?thesis by (simp add: added_ok_def)
  next
    case lock
    with a show ?thesis by (simp add: added_ok_def)
  next
    case unlock
    with a show ?thesis by (simp add: added_ok_def)
  next
    case alloc
    with a show ?thesis by (auto simp: added_ok_def)
  next
    case (add t c' job)
    with creator_facts [OF c, of t job] have "job < length (heap s)" "job \<notin> set (added s)"
      by simp_all
    with add a show ?thesis by (auto simp: added_ok_def)
  next
    case receive
    with a show ?thesis by (auto simp: added_ok_def)
  next
    case written
    with a show ?thesis by (simp add: added_ok_def)
  next
    case delete
    with a show ?thesis by (simp add: added_ok_def)
  next
    case finish
    with a show ?thesis by (simp add: added_ok_def)
  qed
qed

lemma queue_ok_perform:
  assumes "core s"
  shows "queue_ok (perform l a s)"
proof -
  from assms have a: "added_ok s" and c: "creators_ok s" and q: "queue_ok s"
    and w: "workers_ok s" and m: "map_ok s"
    by (simp_all add: core_def)
  show ?thesis
    using perform_cases [of l a s]
  proof cases
    case same
    with q show ?thesis by simp
  next
    case crash
    with q show ?thesis by (simp add: queue_ok_def)
  next
    case silent
    with q show ?thesis by (simp add: queue_ok_def)
  next
    case lock
    with q show ?thesis by (simp add: queue_ok_def)
  next
    case unlock
    with q show ?thesis by (simp add: queue_ok_def)
  next
    case (alloc t c' q')
    have "job < length (heap s) \<and> Query (heap s ! job) \<noteq> q'" if "job \<in> set (workers s)" for job
      using that queue_facts [OF q that] added_valid [OF a queue_added [OF a that]] alloc(2)
      by auto
    with alloc q show ?thesis by (auto simp: queue_ok_def nth_append)
  next
    case (add t c' job)
    with creator_facts [OF c, of t job] q show ?thesis by (auto simp: queue_ok_def)
  next
    case receive
    with q show ?thesis by (auto simp: queue_ok_def)
  next
    case (written t job r)
    from written worker_valid [OF assms, of t job] have v: "job < length (heap s)" by simp
    have "j \<noteq> job" if "j \<in> set (workers s)" for j
      using that worker_facts [OF w, of t job] written(1) by auto
    with written q v show ?thesis by (auto simp: queue_ok_def nth_list_update)
  next
    case (delete t job)
    from worker_facts [OF w, of t job] delete(1)
    have j: "job \<notin> set (workers s)" "jobs s (Query (heap s ! job)) = Some job" by simp_all
    have "Query (heap s ! j) \<noteq> Query (heap s ! job)" if "j \<in> set (workers s)" for j
      using that queue_facts [OF q that] j by auto
    with delete q show ?thesis by (auto simp: queue_ok_def)
  next
    case (finish t job)
    from finish worker_valid [OF assms, of t job] have v: "job < length (heap s)" by simp
    have "j \<noteq> job" if "j \<in> set (workers s)" for j
      using that worker_facts [OF w, of t job] finish(1) by auto
    with finish q v show ?thesis by (auto simp: queue_ok_def nth_list_update)
  qed
qed

lemma results_ok_perform:
  assumes "core s"
  shows "results_ok (perform l a s)"
proof -
  from assms have r: "results_ok s" and w: "workers_ok s" and m: "map_ok s"
    by (simp_all add: core_def)
  show ?thesis
    using perform_cases [of l a s]
  proof cases
    case same
    with r show ?thesis by simp
  next
    case crash
    with r show ?thesis by (simp add: results_ok_def)
  next
    case silent
    with r show ?thesis by (simp add: results_ok_def)
  next
    case lock
    with r show ?thesis by (simp add: results_ok_def)
  next
    case unlock
    with r show ?thesis by (simp add: results_ok_def)
  next
    case (alloc t c' q')
    have "Query (heap s ! j) \<noteq> q'" if "jobs s (Query (heap s ! j)) = Some j" for j
      using that alloc(2) by auto
    with alloc r show ?thesis
      by (auto simp: results_ok_def nth_append less_Suc_eq)
  next
    case add
    with r show ?thesis by (simp add: results_ok_def)
  next
    case receive
    with r show ?thesis by (simp add: results_ok_def)
  next
    case (written t job r')
    with worker_valid [OF assms, of t job] have "job < length (heap s)" by simp
    with written r show ?thesis by (auto simp: results_ok_def nth_list_update)
  next
    case (delete t job)
    from worker_facts [OF w, of t job] delete(1)
    have j: "jobs s (Query (heap s ! job)) = Some job" "Result (heap s ! job) \<noteq> None"
      by simp_all
    have "Query (heap s ! j) \<noteq> Query (heap s ! job)"
      if "jobs s (Query (heap s ! j)) = Some j" "j \<noteq> job" for j
      using that j by auto
    with delete r j show ?thesis by (auto simp: results_ok_def)
  next
    case (finish t job)
    with worker_valid [OF assms, of t job] have "job < length (heap s)" by simp
    with finish r show ?thesis by (auto simp: results_ok_def nth_list_update)
  qed
qed


lemma creator_job_upd:
  "creator_job p = creator_job (threads s t) \<Longrightarrow>
   creator_job (((threads s)(t := p)) t') = creator_job (threads s t')"
  by simp

lemma worker_job_upd:
  "worker_job p = worker_job (threads s t) \<Longrightarrow>
   worker_job (((threads s)(t := p)) t') = worker_job (threads s t')"
  by simp

lemma creators_ok_frame:
  assumes c: "creators_ok s"
    and th: "\<And>t'. creator_job (threads s' t') = creator_job (threads s t')"
    and len: "length (heap s') = length (heap s)" and ad: "added s' = added s"
    and keep: "\<And>t' j. creator_job (threads s t') = Some j \<Longrightarrow>
                 heap s' ! j = heap s ! j \<and> jobs s' (Query (heap s ! j)) = Some j"
  shows "creators_ok s'"
proof -
  have g1: "j < length (heap s) \<and> j \<notin> set (added s) \<and>
            jobs s' (Query (heap s' ! j)) = Some j \<and> Result (heap s' ! j) = None"
    if "creator_job (threads s t') = Some j" for t' j
    using creator_facts [OF c that] keep [OF that] by simp
  show ?thesis
    unfolding creators_ok_def th len ad
    using g1 creator_unique [OF c] creator_exists [OF c] by blast
qed

lemma creators_ok_perform:
  assumes "core s"
  shows "creators_ok (perform l a s)"
proof -
  from assms have a: "added_ok s" and c: "creators_ok s" and q: "queue_ok s"
    and w: "workers_ok s" and m: "map_ok s"
    by (simp_all add: core_def)
  note cf = creator_facts [OF c] and cu = creator_unique [OF c] and ce = creator_exists [OF c]
  show ?thesis
    using perform_cases [of l a s]
  proof cases
    case same
    with c show ?thesis by simp
  next
    case crash
    with c show ?thesis by (simp add: creators_ok_def)
  next
    case (silent t p)
    with cf show ?thesis
      by (intro creators_ok_frame [OF c]) simp_all
  next
    case (lock t p)
    with cf show ?thesis
      by (intro creators_ok_frame [OF c]) simp_all
  next
    case (unlock t p)
    with cf show ?thesis
      by (intro creators_ok_frame [OF c]) simp_all
  next
    case (receive t job rest)
    with cf show ?thesis
      by (intro creators_ok_frame [OF c]) simp_all
  next
    case (alloc t c' q')
    let ?n = "length (heap s)"
    let ?s' = "perform l a s"
    have old: "j < ?n \<and> j \<notin> set (added s) \<and> jobs s (Query (heap s ! j)) = Some j \<and>
               Result (heap s ! j) = None \<and> Query (heap s ! j) \<noteq> q' \<and> t' \<noteq> t"
      if "creator_job (threads s t') = Some j" for t' j
      using cf [OF that] that alloc(1,2) by auto
    have th: "threads ?s' = (threads s)(t := NewJob_unlock c' ?n False)"
      and hp: "heap ?s' = heap s @ [\<lparr>wait = 1, Query = q', Result = None\<rparr>]"
      and jb: "jobs ?s' = (jobs s)(q' \<mapsto> ?n)" and ad: "added ?s' = added s"
      by (simp_all add: alloc(3))
    have new: "?n \<notin> set (added s)" using added_valid [OF a, of ?n] by auto
    have g1: "j < length (heap s @ [\<lparr>wait = 1, Query = q', Result = None\<rparr>]) \<and>
          j \<notin> set (added s) \<and>
          ((jobs s)(q' \<mapsto> ?n)) (Query ((heap s @ [\<lparr>wait = 1, Query = q', Result = None\<rparr>]) ! j))
            = Some j \<and>
          Result ((heap s @ [\<lparr>wait = 1, Query = q', Result = None\<rparr>]) ! j) = None"
      if "creator_job (((threads s)(t := NewJob_unlock c' ?n False)) t') = Some j" for t' j
    proof -
      from that consider "t' = t" "j = ?n" | "t' \<noteq> t" "creator_job (threads s t') = Some j"
        by (cases "t' = t") auto
      then show ?thesis
      proof cases
        case 1
        with new show ?thesis by simp
      next
        case 2
        from old [OF 2(2)] show ?thesis by (simp add: nth_append)
      qed
    qed
    have g2: "t1 = t2"
      if "creator_job (((threads s)(t := NewJob_unlock c' ?n False)) t1) = Some j"
        "creator_job (((threads s)(t := NewJob_unlock c' ?n False)) t2) = Some j" for t1 t2 j
      using that old [of t1 j] old [of t2 j] cu [of t1 j t2]
      by (cases "t1 = t"; cases "t2 = t") auto
    have g3: "\<exists>t'. creator_job (((threads s)(t := NewJob_unlock c' ?n False)) t') = Some j"
      if "j < length (heap s @ [\<lparr>wait = 1, Query = q', Result = None\<rparr>])"
        and na: "j \<notin> set (added s)" for j
    proof -
      from that consider "j = ?n" | "j < ?n" by fastforce
      then show ?thesis
      proof cases
        case 1
        then show ?thesis by (intro exI [of _ t]) simp
      next
        case 2
        from ce [OF 2 na] obtain t' where t': "creator_job (threads s t') = Some j" by blast
        with old [OF t'] show ?thesis by (intro exI [of _ t']) simp
      qed
    qed
    show ?thesis
      unfolding creators_ok_def th hp jb ad using g1 g2 g3 by blast
  next
    case (add t c' job)
    let ?s' = "perform l a s"
    have tj: "creator_job (threads s t) = Some job" using add(1) by simp
    have th: "threads ?s' = (threads s)(t := NewJob_return c' job)"
      and hp: "heap ?s' = heap s" and jb: "jobs ?s' = jobs s"
      and ad: "added ?s' = added s @ [job]"
      by (simp_all add: add(2))
    have other: "creator_job (threads s t') = Some j \<and> j \<noteq> job"
      if "creator_job (((threads s)(t := NewJob_return c' job)) t') = Some j" for t' j
    proof -
      from that have "t' \<noteq> t" by (cases "t' = t") auto
      with that have "creator_job (threads s t') = Some j" by simp
      with cu [OF tj, of t'] \<open>t' \<noteq> t\<close> show ?thesis by auto
    qed
    have g1: "j < length (heap s) \<and> j \<notin> set (added s @ [job]) \<and>
            jobs s (Query (heap s ! j)) = Some j \<and> Result (heap s ! j) = None"
      if "creator_job (((threads s)(t := NewJob_return c' job)) t') = Some j" for t' j
      using other [OF that] cf [of t' j] by simp
    have g2: "t1 = t2"
      if "creator_job (((threads s)(t := NewJob_return c' job)) t1) = Some j"
        "creator_job (((threads s)(t := NewJob_return c' job)) t2) = Some j" for t1 t2 j
      using other [OF that(1)] other [OF that(2)] cu [of t1 j t2] by blast
    have g3: "\<exists>t'. creator_job (((threads s)(t := NewJob_return c' job)) t') = Some j"
      if "j < length (heap s)" and "j \<notin> set (added s @ [job])" for j
    proof -
      from that have "j \<notin> set (added s)" "j \<noteq> job" by simp_all
      with ce [OF \<open>j < length (heap s)\<close>] obtain t' where t': "creator_job (threads s t') = Some j"
        by blast
      with tj \<open>j \<noteq> job\<close> have "t' \<noteq> t" by auto
      with t' show ?thesis by (intro exI [of _ t']) simp
    qed
    show ?thesis
      unfolding creators_ok_def th hp jb ad using g1 g2 g3 by blast
  next
    case (written t job r)
    have wj: "worker_job (threads s t) = Some job" using written(1) by simp
    have v: "job < length (heap s)" using worker_valid [OF assms wj] .
    have ja: "job \<in> set (added s)" using worker_facts [OF w wj] by simp
    have ne: "j \<noteq> job" if "creator_job (threads s t') = Some j" for t' j
      using cf [OF that] ja by auto
    show ?thesis
    proof (rule creators_ok_frame [OF c])
      fix t' j
      assume "creator_job (threads s t') = Some j"
      from cf [OF this] ne [OF this]
      show "heap (perform l a s) ! j = heap s ! j \<and>
            jobs (perform l a s) (Query (heap s ! j)) = Some j"
        by (simp add: written(2))
    qed (simp_all add: written)
  next
    case (delete t job)
    have wj: "worker_job (threads s t) = Some job" using delete(1) by simp
    have ja: "job \<in> set (added s)" and jm: "jobs s (Query (heap s ! job)) = Some job"
      using worker_facts [OF w wj] delete(1) by simp_all
    have ne: "Query (heap s ! j) \<noteq> Query (heap s ! job)"
      if "creator_job (threads s t') = Some j" for t' j
      using cf [OF that] ja jm by auto
    show ?thesis
    proof (rule creators_ok_frame [OF c])
      fix t' j
      assume "creator_job (threads s t') = Some j"
      from cf [OF this] ne [OF this]
      show "heap (perform l a s) ! j = heap s ! j \<and>
            jobs (perform l a s) (Query (heap s ! j)) = Some j"
        by (simp add: delete(2))
    qed (simp_all add: delete)
  next
    case (finish t job)
    have wj: "worker_job (threads s t) = Some job" using finish(1) by simp
    have v: "job < length (heap s)" using worker_valid [OF assms wj] .
    have ja: "job \<in> set (added s)" using worker_facts [OF w wj] by simp
    have ne: "j \<noteq> job" if "creator_job (threads s t') = Some j" for t' j
      using cf [OF that] ja by auto
    show ?thesis
    proof (rule creators_ok_frame [OF c])
      fix t' j
      assume "creator_job (threads s t') = Some j"
      from cf [OF this] ne [OF this]
      show "heap (perform l a s) ! j = heap s ! j \<and>
            jobs (perform l a s) (Query (heap s ! j)) = Some j"
        by (simp add: finish(3))
    qed (simp_all add: finish)
  qed
qed

lemma worker_ok_cong:
  "jobs s' = jobs s \<Longrightarrow> heap s' = heap s \<Longrightarrow> worker_ok s' p = worker_ok s p"
  by (cases p) simp_all

lemma worker_ok_frame:
  "worker_job p = Some j \<Longrightarrow> worker_ok s p \<Longrightarrow> heap s' ! j = heap s ! j \<Longrightarrow>
   (jobs s (Query (heap s ! j)) = Some j \<Longrightarrow> jobs s' (Query (heap s ! j)) = Some j) \<Longrightarrow>
   (\<And>q. jobs s' q = Some j \<Longrightarrow> jobs s q = Some j) \<Longrightarrow> worker_ok s' p"
  by (cases p) auto

lemma workers_ok_frame:
  assumes w: "workers_ok s"
    and th: "threads s' = (threads s)(t := p)"
    and self: "\<And>j. worker_job p = Some j \<Longrightarrow>
                 j \<in> set (added s') \<and> j \<notin> set (workers s') \<and> wait (heap s' ! j) = 1 \<and>
                 worker_ok s' p \<and> (\<forall>t'. t' \<noteq> t \<longrightarrow> worker_job (threads s t') \<noteq> Some j)"
    and keep: "\<And>t' j. t' \<noteq> t \<Longrightarrow> worker_job (threads s t') = Some j \<Longrightarrow>
                 j \<in> set (added s') \<and> j \<notin> set (workers s') \<and> wait (heap s' ! j) = 1 \<and>
                 worker_ok s' (threads s t')"
  shows "workers_ok s'"
proof -
  have g1: "j \<in> set (added s') \<and> j \<notin> set (workers s') \<and> wait (heap s' ! j) = 1 \<and>
            worker_ok s' (((threads s)(t := p)) t')"
    if "worker_job (((threads s)(t := p)) t') = Some j" for t' j
    using that self [of j] keep [of t' j] by (cases "t' = t") simp_all
  have g2: "t1 = t2"
    if "worker_job (((threads s)(t := p)) t1) = Some j"
      "worker_job (((threads s)(t := p)) t2) = Some j" for t1 t2 j
    using that self [of j] worker_unique [OF w, of t1 j t2]
    by (cases "t1 = t"; cases "t2 = t") auto
  show ?thesis
    unfolding workers_ok_def th using g1 g2 by blast
qed

lemma workers_ok_perform:
  assumes "core s"
  shows "workers_ok (perform l a s)"
proof -
  from assms have a: "added_ok s" and c: "creators_ok s" and q: "queue_ok s"
    and w: "workers_ok s" and m: "map_ok s"
    by (simp_all add: core_def)
  note wf = worker_facts [OF w] and wu = worker_unique [OF w]
  let ?s' = "perform l a s"
  show ?thesis
    using perform_cases [of l a s]
  proof cases
    case same
    with w show ?thesis by simp
  next
    case crash
    with w show ?thesis by (simp add: workers_ok_def worker_ok_cong [of "s\<lparr>crashed := _\<rparr>" s])
  next
    case (silent t p)
    show ?thesis
    proof (rule workers_ok_frame [OF w, of ?s' t p])
      fix t' j
      assume "t' \<noteq> t" "worker_job (threads s t') = Some j"
      from wf [OF this(2)]
      show "j \<in> set (added ?s') \<and> j \<notin> set (workers ?s') \<and> wait (heap ?s' ! j) = 1 \<and>
            worker_ok ?s' (threads s t')"
        by (simp add: silent(1) worker_ok_cong [of "set_pc t p s" s])
    qed (simp_all add: silent)
  next
    case (lock t p)
    let ?m = "s\<lparr>mutex := Some t\<rparr>"
    have wk: "worker_ok ?s' p' = worker_ok s p'" for p'
      by (simp add: lock(1) worker_ok_cong [of "set_pc t p ?m" s])
    show ?thesis
    proof (rule workers_ok_frame [OF w, of ?s' t p])
      fix t' j
      assume "t' \<noteq> t" "worker_job (threads s t') = Some j"
      from wf [OF this(2)]
      show "j \<in> set (added ?s') \<and> j \<notin> set (workers ?s') \<and> wait (heap ?s' ! j) = 1 \<and>
            worker_ok ?s' (threads s t')"
        unfolding wk by (simp add: lock(1))
    next
      fix j
      assume "worker_job p = Some j"
      with lock(6) have wj: "worker_job (threads s t) = Some j" by simp
      from wf [OF wj] wu [OF wj]
      show "j \<in> set (added ?s') \<and> j \<notin> set (workers ?s') \<and> wait (heap ?s' ! j) = 1 \<and>
            worker_ok ?s' p \<and> (\<forall>t'. t' \<noteq> t \<longrightarrow> worker_job (threads s t') \<noteq> Some j)"
        unfolding wk lock(7) by (auto simp: lock(1))
    qed (simp add: lock(1))
  next
    case (unlock t p)
    let ?m = "s\<lparr>mutex := None\<rparr>"
    have wk: "worker_ok ?s' p' = worker_ok s p'" for p'
      by (simp add: unlock(1) worker_ok_cong [of "set_pc t p ?m" s])
    show ?thesis
    proof (rule workers_ok_frame [OF w, of ?s' t p])
      fix t' j
      assume "t' \<noteq> t" "worker_job (threads s t') = Some j"
      from wf [OF this(2)]
      show "j \<in> set (added ?s') \<and> j \<notin> set (workers ?s') \<and> wait (heap ?s' ! j) = 1 \<and>
            worker_ok ?s' (threads s t')"
        unfolding wk by (simp add: unlock(1))
    next
      fix j
      assume "worker_job p = Some j"
      with unlock(5) have wj: "worker_job (threads s t) = Some j" by simp
      from wf [OF wj] wu [OF wj]
      show "j \<in> set (added ?s') \<and> j \<notin> set (workers ?s') \<and> wait (heap ?s' ! j) = 1 \<and>
            worker_ok ?s' p \<and> (\<forall>t'. t' \<noteq> t \<longrightarrow> worker_job (threads s t') \<noteq> Some j)"
        unfolding wk unlock(6) by (auto simp: unlock(1))
    qed (simp add: unlock(1))
  next
    case (alloc t c' q')
    show ?thesis
    proof (rule workers_ok_frame [OF w, of ?s' t "NewJob_unlock c' (length (heap s)) False"])
      fix t' j
      assume "t' \<noteq> t" and wj: "worker_job (threads s t') = Some j"
      have v: "j < length (heap s)" using worker_valid [OF assms wj] .
      have "worker_ok ?s' (threads s t')"
      proof (rule worker_ok_frame [OF wj, of s])
        show "worker_ok s (threads s t')" using wf [OF wj] by simp
        show "heap ?s' ! j = heap s ! j" using v by (simp add: alloc(3) nth_append)
        show "jobs ?s' q = Some j \<Longrightarrow> jobs s q = Some j" for q
          using v by (auto simp: alloc(3) split: if_splits)
        show "jobs ?s' (Query (heap s ! j)) = Some j" if "jobs s (Query (heap s ! j)) = Some j"
          using that alloc(2) by (auto simp: alloc(3))
      qed
      with wf [OF wj] v
      show "j \<in> set (added ?s') \<and> j \<notin> set (workers ?s') \<and> wait (heap ?s' ! j) = 1 \<and>
            worker_ok ?s' (threads s t')"
        by (simp add: alloc(3) nth_append)
    qed (simp_all add: alloc)
  next
    case (add t c' job)
    have cj: "creator_job (threads s t) = Some job" using add(1) by simp
    have na: "job \<notin> set (added s)" using creator_facts [OF c cj] by simp
    show ?thesis
    proof (rule workers_ok_frame [OF w, of ?s' t "NewJob_return c' job"])
      fix t' j
      assume "t' \<noteq> t" and wj: "worker_job (threads s t') = Some j"
      from wf [OF wj] na have "j \<noteq> job" by auto
      with wf [OF wj]
      show "j \<in> set (added ?s') \<and> j \<notin> set (workers ?s') \<and> wait (heap ?s' ! j) = 1 \<and>
            worker_ok ?s' (threads s t')"
        by (simp add: add(2) worker_ok_cong [of "set_pc t (NewJob_return c' job) _" s])
    qed (simp_all add: add)
  next
    case (receive t job rest)
    have jq: "job \<in> set (workers s)" using receive(2) by simp
    have d: "job \<notin> set rest" using a receive(2) by (simp add: added_ok_def)
    have wk: "worker_ok ?s' p' = worker_ok s p'" for p'
      by (simp add: receive(3) worker_ok_cong [of "set_pc t (work_Lookup job) _" s])
    show ?thesis
    proof (rule workers_ok_frame [OF w, of ?s' t "work_Lookup job"])
      fix t' j
      assume "t' \<noteq> t" and wj: "worker_job (threads s t') = Some j"
      from wf [OF wj] receive(2)
      show "j \<in> set (added ?s') \<and> j \<notin> set (workers ?s') \<and> wait (heap ?s' ! j) = 1 \<and>
            worker_ok ?s' (threads s t')"
        unfolding wk by (simp add: receive(3))
    next
      fix j
      assume "worker_job (work_Lookup job) = Some j"
      then have j: "j = job" by simp
      from queue_facts [OF q jq] map_facts [OF m, of "Query (heap s ! job)" job]
        queue_added [OF a jq] d wf [of _ job] jq
      show "j \<in> set (added ?s') \<and> j \<notin> set (workers ?s') \<and> wait (heap ?s' ! j) = 1 \<and>
            worker_ok ?s' (work_Lookup job) \<and>
            (\<forall>t'. t' \<noteq> t \<longrightarrow> worker_job (threads s t') \<noteq> Some j)"
        unfolding wk j by (auto simp: receive(3))
    qed (simp add: receive(3))
  next
    case (written t job r)
    have tj: "worker_job (threads s t) = Some job" using written(1) by simp
    have v: "job < length (heap s)" using worker_valid [OF assms tj] .
    show ?thesis
    proof (rule workers_ok_frame [OF w, of ?s' t "work_lock job"])
      fix t' j
      assume ne: "t' \<noteq> t" and wj: "worker_job (threads s t') = Some j"
      with wu [OF tj, of t'] have jj: "j \<noteq> job" by auto
      then have h: "heap ?s' ! j = heap s ! j" by (simp add: written(2))
      have "worker_ok ?s' (threads s t')"
        by (rule worker_ok_frame [OF wj, of s]) (use wf [OF wj] h in \<open>simp_all add: written(2)\<close>)
      with wf [OF wj] h
      show "j \<in> set (added ?s') \<and> j \<notin> set (workers ?s') \<and> wait (heap ?s' ! j) = 1 \<and>
            worker_ok ?s' (threads s t')"
        by (simp add: written(2))
    next
      fix j
      assume "worker_job (work_lock job) = Some j"
      then have j: "j = job" by simp
      from wf [OF tj] wu [OF tj] v written(1)
      show "j \<in> set (added ?s') \<and> j \<notin> set (workers ?s') \<and> wait (heap ?s' ! j) = 1 \<and>
            worker_ok ?s' (work_lock job) \<and>
            (\<forall>t'. t' \<noteq> t \<longrightarrow> worker_job (threads s t') \<noteq> Some j)"
        unfolding j by (auto simp: written(2))
    qed (simp add: written(2))
  next
    case (delete t job)
    have tj: "worker_job (threads s t) = Some job" using delete(1) by simp
    have jm: "jobs s (Query (heap s ! job)) = Some job" and jr: "Result (heap s ! job) \<noteq> None"
      using wf [OF tj] delete(1) by simp_all
    show ?thesis
    proof (rule workers_ok_frame [OF w, of ?s' t "work_unlock job"])
      fix t' j
      assume ne: "t' \<noteq> t" and wj: "worker_job (threads s t') = Some j"
      with wu [OF tj, of t'] have jj: "j \<noteq> job" by auto
      have "worker_ok ?s' (threads s t')"
      proof (rule worker_ok_frame [OF wj, of s])
        show "worker_ok s (threads s t')" using wf [OF wj] by simp
        show "heap ?s' ! j = heap s ! j" by (simp add: delete(2))
        show "jobs ?s' q = Some j \<Longrightarrow> jobs s q = Some j" for q
          by (auto simp: delete(2) split: if_splits)
        show "jobs ?s' (Query (heap s ! j)) = Some j" if "jobs s (Query (heap s ! j)) = Some j"
          using that jm jj by (auto simp: delete(2))
      qed
      with wf [OF wj]
      show "j \<in> set (added ?s') \<and> j \<notin> set (workers ?s') \<and> wait (heap ?s' ! j) = 1 \<and>
            worker_ok ?s' (threads s t')"
        by (simp add: delete(2))
    next
      fix j
      assume "worker_job (work_unlock job) = Some j"
      then have j: "j = job" by simp
      have "jobs s q \<noteq> Some job" if "q \<noteq> Query (heap s ! job)" for q
        using map_facts [OF m, of q job] that by auto
      with wf [OF tj] wu [OF tj] jr
      show "j \<in> set (added ?s') \<and> j \<notin> set (workers ?s') \<and> wait (heap ?s' ! j) = 1 \<and>
            worker_ok ?s' (work_unlock job) \<and>
            (\<forall>t'. t' \<noteq> t \<longrightarrow> worker_job (threads s t') \<noteq> Some j)"
        unfolding j by (auto simp: delete(2))
    qed (simp add: delete(2))
  next
    case (finish t job)
    have tj: "worker_job (threads s t) = Some job" using finish(1) by simp
    have v: "job < length (heap s)" using worker_valid [OF assms tj] .
    show ?thesis
    proof (rule workers_ok_frame [OF w, of ?s' t Idle])
      fix t' j
      assume ne: "t' \<noteq> t" and wj: "worker_job (threads s t') = Some j"
      with wu [OF tj, of t'] have jj: "j \<noteq> job" by auto
      then have h: "heap ?s' ! j = heap s ! j" by (simp add: finish(3))
      have "worker_ok ?s' (threads s t')"
        by (rule worker_ok_frame [OF wj, of s]) (use wf [OF wj] h in \<open>simp_all add: finish(3)\<close>)
      with wf [OF wj] h
      show "j \<in> set (added ?s') \<and> j \<notin> set (workers ?s') \<and> wait (heap ?s' ! j) = 1 \<and>
            worker_ok ?s' (threads s t')"
        by (simp add: finish(3))
    qed (simp_all add: finish(3))
  qed
qed

lemma core_perform: "core s \<Longrightarrow> core (perform l a s)"
  using mutex_ok_perform [of s l a] map_ok_perform [of s l a] added_ok_perform [of s l a]
    queue_ok_perform [of s l a] creators_ok_perform [of s l a] workers_ok_perform [of s l a]
    results_ok_perform [of s l a]
  by (simp add: core_def)

lemma core_exec: "core s \<Longrightarrow> core (exec l a s)"
  by (simp add: exec_def core_perform)

lemma core_NewDnsProcessor: "core NewDnsProcessor"
  by (simp add: core_def NewDnsProcessor_def mutex_ok_def map_ok_def added_ok_def queue_ok_def
        creators_ok_def workers_ok_def results_ok_def)

lemma run_append: "run l (as @ [a]) s = exec l a (run l as s)"
  by (simp add: run_def)

lemma core_run: "core (run l as NewDnsProcessor)"
proof (induction as rule: rev_induct)
  case Nil
  show ?case by (simp add: run_def core_NewDnsProcessor)
next
  case (snoc a as)
  then show ?case by (simp add: run_append core_exec)
qed

subsection \<open>What the callers know\<close>

lemma fold_append_items: "fold (\<lambda>item results. results @ [item]) xs rs = rs @ xs"
  by (induction xs arbitrary: rs) simp_all

lemma group_ok_mono: "group_ok h d tys i g \<Longrightarrow> heap_mono h h' \<Longrightarrow> group_ok h' d tys i g"
  unfolding group_ok_def heap_mono_def
  by (auto simp: list_eq_iff_nth_eq)

lemma frame_ok_mono: "frame_ok h c q \<Longrightarrow> heap_mono h h' \<Longrightarrow> frame_ok h' c q"
  by (cases "(h, c, q)" rule: frame_ok.cases) (auto intro: group_ok_mono)

lemma all_done_mono: "all_done h g \<Longrightarrow> heap_mono h h' \<Longrightarrow> all_done h' g"
  unfolding all_done_def heap_mono_def by fastforce

lemma job_results_mono:
  "all_done h g \<Longrightarrow> heap_mono h h' \<Longrightarrow> map (job_results h') g = map (job_results h) g"
  unfolding all_done_def heap_mono_def job_results_def by simp

lemma concat_results_mono:
  "all_done h g \<Longrightarrow> heap_mono h h' \<Longrightarrow>
   concat (map (job_results h') g) = concat (map (job_results h) g)"
  by (rule arg_cong [of _ _ concat]) (rule job_results_mono)

lemma all_done_take: "all_done h (take (Suc i) g) \<Longrightarrow> all_done h (take i g)"
  unfolding all_done_def using set_take_subset_set_take [of i "Suc i" g] by auto

lemma valid_mono: "\<forall>job\<in>set g. job < length h \<Longrightarrow> heap_mono h h' \<Longrightarrow> \<forall>job\<in>set g. job < length h'"
  unfolding heap_mono_def by fastforce

lemma client_ok_mono:
  assumes "client_ok h p" "heap_mono h h'"
  shows "client_ok h' p"
proof (cases p)
  case (NewJob_unlock c job exist)
  with assms frame_ok_mono [OF _ assms(2), of c "Query (h ! job)"] show ?thesis
    by (auto simp: heap_mono_def)
next
  case (NewJob_add c job exist)
  with assms frame_ok_mono [OF _ assms(2), of c "Query (h ! job)"] show ?thesis
    by (auto simp: heap_mono_def)
next
  case (NewJob_returned job)
  with assms show ?thesis by (auto simp: heap_mono_def)
next
  case (Wait_range g i)
  with assms all_done_mono [OF _ assms(2)] valid_mono [OF _ assms(2)] show ?thesis by auto
next
  case (Results_wait g i rs)
  with assms all_done_mono [OF _ assms(2)] valid_mono [OF _ assms(2)]
    concat_results_mono [OF _ assms(2), of "take i g"] show ?thesis by auto
next
  case (Results_read g i rs)
  from Results_read assms have d: "all_done h (take (Suc i) g)" by simp
  then have "all_done h (take i g)" by (rule all_done_take)
  with Results_read assms all_done_mono [OF d assms(2)] valid_mono [OF _ assms(2)]
    concat_results_mono [OF _ assms(2), of "take i g"] show ?thesis by auto
next
  case (Results_returned g rs)
  with assms all_done_mono [OF _ assms(2)] concat_results_mono [OF _ assms(2), of g]
  show ?thesis by auto
qed (use assms in \<open>auto intro: frame_ok_mono group_ok_mono all_done_mono\<close>)

lemma heap_mono_refl: "heap_mono h h"
  by (simp add: heap_mono_def)

lemma heap_mono_perform:
  assumes "core s"
  shows "heap_mono (heap s) (heap (perform l a s))"
proof -
  from assms have w: "workers_ok s" by (simp add: core_def)
  show ?thesis
    using perform_cases [of l a s]
  proof cases
    case alloc
    then show ?thesis by (simp add: heap_mono_def nth_append)
  next
    case (written t job r)
    with worker_facts [OF w, of t job] worker_valid [OF assms, of t job] show ?thesis
      by (auto simp: heap_mono_def nth_list_update)
  next
    case (finish t job)
    with worker_facts [OF w, of t job] worker_valid [OF assms, of t job] show ?thesis
      by (auto simp: heap_mono_def nth_list_update)
  qed (simp_all add: heap_mono_refl)
qed

lemma perform_threads_other: "t \<noteq> actor a \<Longrightarrow> threads (perform l a s) t = threads s t"
  by (cases a)
     (auto simp: step_def receive_def work_lookup_def Let_def
           split: pc.splits option.splits list.splits sum.splits)

lemma take_all_done:
  "all_done h (take i g) \<Longrightarrow> i < length g \<Longrightarrow> g ! i < length h \<Longrightarrow> wait (h ! (g ! i)) = 0 \<Longrightarrow>
   all_done h (take (Suc i) g)"
  by (auto simp: all_done_def take_Suc_conv_app_nth)

lemma client_ok_step:
  assumes "core s" "clients s"
  shows "client_ok (heap (step t s)) (threads (step t s) t)"
proof -
  from assms have own: "client_ok (heap s) (threads s t)" by (simp add: clients_def)
  from assms have m: "map_ok s" by (simp add: core_def)
  show ?thesis
  proof (cases "threads s t")
    case Idle
    then show ?thesis by (simp add: step_def)
  next
    case (NewJob_lock c q)
    with own show ?thesis by (auto simp: step_def)
  next
    case (NewJob_check c q)
    show ?thesis
    proof (cases "jobs s q")
      case None
      have "heap_mono (heap s) (heap s @ [\<lparr>wait = 1, Query = q, Result = None\<rparr>])"
        by (simp add: heap_mono_def nth_append)
      from frame_ok_mono [OF _ this, of c q] own NewJob_check None show ?thesis
        by (simp add: step_def Let_def)
    next
      case (Some job)
      with own NewJob_check map_facts [OF m Some] show ?thesis by (simp add: step_def)
    qed
  next
    case (NewJob_unlock c job exist)
    with own show ?thesis by (auto simp: step_def)
  next
    case (NewJob_add c job exist)
    show ?thesis
    proof (cases c)
      case None
      with own NewJob_add show ?thesis by (auto simp: step_def)
    next
      case (Some f)
      obtain d tys i g where f: "f = (d, tys, i, g)" by (cases f) auto
      from own NewJob_add Some f
      have "group_ok (heap s) d tys (Suc i) (g @ [job])"
        by (auto simp: group_ok_def take_Suc_conv_app_nth)
      with NewJob_add Some f show ?thesis by (auto simp: step_def)
    qed
  next
    case (NewJob_returned job)
    with own show ?thesis by (simp add: step_def)
  next
    case (NewJobs_range d tys i g)
    with own show ?thesis by (auto simp: step_def group_ok_def)
  next
    case (NewJobs_returned d tys g)
    with own show ?thesis by (simp add: step_def)
  next
    case (Wait_range g i)
    with own take_all_done [of "heap s" i g] show ?thesis by (auto simp: step_def)
  next
    case (Wait_returned g)
    with own show ?thesis by (simp add: step_def)
  next
    case (Results_wait g i rs)
    with own take_all_done [of "heap s" i g] show ?thesis by (auto simp: step_def)
  next
    case (Results_read g i rs)
    show ?thesis
    proof (cases "Result (heap s ! (g ! i))")
      case None
      with own Results_read show ?thesis by (simp add: step_def)
    next
      case (Some r)
      then have "job_results (heap s) (g ! i) = Results r" by (simp add: job_results_def)
      with own Results_read Some show ?thesis
        by (auto simp: step_def fold_append_items take_Suc_conv_app_nth)
    qed
  next
    case (Results_returned g rs)
    with own show ?thesis by (simp add: step_def)
  next
    case (work_Lookup job)
    then show ?thesis by (simp add: step_def)
  next
    case (work_lock job)
    then show ?thesis by (auto simp: step_def)
  next
    case (work_delete job)
    then show ?thesis by (simp add: step_def)
  next
    case (work_unlock job)
    then show ?thesis by (auto simp: step_def)
  next
    case (work_Done job)
    then show ?thesis by (auto simp: step_def)
  qed
qed

lemma client_ok_actor:
  assumes "core s" "clients s"
  shows "client_ok (heap (perform l a s)) (threads (perform l a s) (actor a))"
proof -
  have own: "client_ok (heap s) (threads s t)" for t using assms by (simp add: clients_def)
  show ?thesis
  proof (cases a)
    case (Call_NewJob t d ty)
    with own [of t] show ?thesis by simp
  next
    case (Call_NewJobs t d tys)
    with own [of t] show ?thesis by (simp add: group_ok_def)
  next
    case (Call_Wait t g)
    with own [of t] show ?thesis by (simp add: all_done_def)
  next
    case (Call_Results t g)
    with own [of t] show ?thesis by (simp add: all_done_def)
  next
    case (Step t)
    with client_ok_step [OF assms, of t] show ?thesis by simp
  next
    case (Receive t)
    with own [of t] show ?thesis
      by (cases "threads s t") (auto simp: receive_def split: list.splits)
  next
    case (Answer t net)
    with own [of t] show ?thesis
      by (cases "threads s t") (auto simp: work_lookup_def split: sum.splits)
  qed
qed

lemma clients_perform:
  assumes "core s" "clients s"
  shows "clients (perform l a s)"
  unfolding clients_def
proof
  fix t
  show "client_ok (heap (perform l a s)) (threads (perform l a s) t)"
  proof (cases "t = actor a")
    case True
    with client_ok_actor [OF assms, of l a] show ?thesis by simp
  next
    case False
    from assms have "client_ok (heap s) (threads s t)" by (simp add: clients_def)
    from client_ok_mono [OF this heap_mono_perform [OF assms(1), of l a]]
      perform_threads_other [OF False, of l s]
    show ?thesis by simp
  qed
qed

lemma clients_run: "clients (run l as NewDnsProcessor)"
proof (induction as rule: rev_induct)
  case Nil
  show ?case by (simp add: run_def clients_def NewDnsProcessor_def)
next
  case (snoc a as)
  with core_run [of l as] show ?case
    by (simp add: run_append exec_def clients_perform)
qed

subsection \<open>Panics\<close>

text \<open>
  The processor itself never panics: no mutex is unlocked that is not locked, no counter
  goes below zero, and no result is read before it is written. Only a lookup can fault,
  on a nil reply of a backend or on fewer records than data.
\<close>

lemma lookupUnbound_range_fault:
  "lookupUnbound_range l rrs is result = Inl f \<Longrightarrow> f = IndexOutOfRange"
  by (induction "is" arbitrary: result) (auto split: if_splits)

lemma Lookup_fault:
  "Lookup l net q = Inl f \<Longrightarrow> f = NilPointerDereference \<or> f = IndexOutOfRange"
  by (auto simp: Lookup_def lookupDns_def lookupUnbound_def deref_def Let_def
           split: if_splits prod.splits option.splits dest: lookupUnbound_range_fault)

lemma step_no_panic:
  assumes "core s" "clients s"
  shows "crashed (step t s) = crashed s"
proof -
  from assms have mu: "mutex_ok s" and w: "workers_ok s" and m: "map_ok s"
    and r: "results_ok s"
    by (simp_all add: core_def)
  from assms have own: "client_ok (heap s) (threads s t)" by (simp add: clients_def)
  show ?thesis
  proof (cases "threads s t")
    case (NewJob_unlock c job exist)
    with mutex_holder [OF mu, of t] show ?thesis by (simp add: step_def)
  next
    case (work_unlock job)
    with mutex_holder [OF mu, of t] show ?thesis by (simp add: step_def)
  next
    case (work_Done job)
    with worker_facts [OF w, of t job] show ?thesis by (simp add: step_def)
  next
    case (Results_read g i rs)
    with own have d: "g ! i < length (heap s)" "wait (heap s ! (g ! i)) = 0"
      by (simp_all add: all_done_def take_Suc_conv_app_nth)
    with map_facts [OF m, of "Query (heap s ! (g ! i))" "g ! i"] r
    have "Result (heap s ! (g ! i)) \<noteq> None"
      unfolding results_ok_def by auto
    with Results_read show ?thesis by (auto simp: step_def)
  qed (auto simp: step_def Let_def split: option.splits)
qed

lemma perform_panic:
  assumes "core s" "clients s" "crashed (perform l a s) = Some f" "crashed s = None"
  shows "f = NilPointerDereference \<or> f = IndexOutOfRange"
proof (cases a)
  case (Step t)
  with assms step_no_panic [OF assms(1,2), of t] show ?thesis by simp
next
  case (Receive t)
  with assms show ?thesis
    by (cases "threads s t") (auto simp: receive_def split: list.splits)
next
  case (Answer t net)
  with assms show ?thesis
    by (cases "threads s t") (auto simp: work_lookup_def split: sum.splits dest: Lookup_fault)
qed (use assms in \<open>auto split: if_splits\<close>)

lemma run_panic:
  "crashed (run l as NewDnsProcessor) = Some f \<Longrightarrow>
   f = NilPointerDereference \<or> f = IndexOutOfRange"
proof (induction as rule: rev_induct)
  case Nil
  then show ?case by (simp add: run_def NewDnsProcessor_def)
next
  case (snoc a as)
  show ?case
  proof (cases "crashed (run l as NewDnsProcessor)")
    case None
    with snoc.prems
      perform_panic [where s = "run l as NewDnsProcessor" and l = l and a = a and f = f,
                     OF core_run clients_run]
    show ?thesis
      by (simp add: run_append exec_def)
  next
    case (Some f')
    with snoc show ?thesis by (simp add: run_append exec_def)
  qed
qed

lemmas run_simps = run_def exec_def step_def receive_def work_lookup_def NewDnsProcessor_def
  set_pc_def WorkerPool_Add_def Let_def

subsection \<open>Claims on the DNS processor\<close>



text \<open>
  C3: in every state the program reaches,
  \<^item> a job whose completion signal has fired (its counter is zero) is under no key of the
    map, and its result is written;
  \<^item> a job that is no longer in the map under its query has its result written;
  \<^item> the worker that stands before \<^verbatim>\<open>delete\<close> holds the mutex;
  \<^item> the worker that stands before \<^verbatim>\<open>wait.Done\<close> has written the result and has removed
    the job from the map, no longer holds the mutex, and finds the counter at one;
  \<^item> the jobs of a group whose \<open>Wait\<close> has returned are under no key of the map.
\<close>

theorem work_completes_in_order:
  assumes "s = run l as NewDnsProcessor"
  shows
    "(\<forall>job<length (heap s). wait (heap s ! job) = 0 \<longrightarrow>
        (\<forall>q. jobs s q \<noteq> Some job) \<and> Result (heap s ! job) \<noteq> None) \<and>
     (\<forall>job<length (heap s). jobs s (Query (heap s ! job)) \<noteq> Some job \<longrightarrow>
        Result (heap s ! job) \<noteq> None) \<and>
     (\<forall>t job. threads s t = work_delete job \<longrightarrow>
        mutex s = Some t \<and> Result (heap s ! job) \<noteq> None \<and> wait (heap s ! job) = 1) \<and>
     (\<forall>t job. threads s t = work_Done job \<longrightarrow>
        Result (heap s ! job) \<noteq> None \<and> (\<forall>q. jobs s q \<noteq> Some job) \<and> mutex s \<noteq> Some t \<and>
        wait (heap s ! job) = 1) \<and>
     (\<forall>t grp. threads s t = Wait_returned grp \<longrightarrow>
        (\<forall>job\<in>set grp. wait (heap s ! job) = 0 \<and> (\<forall>q. jobs s q \<noteq> Some job)))"
proof -
  have c: "core s" unfolding assms by (rule core_run)
  then have m: "map_ok s" and w: "workers_ok s" and r: "results_ok s" and mu: "mutex_ok s"
    by (simp_all add: core_def)
  have cl: "clients s" unfolding assms by (rule clients_run)
  have notin: "\<forall>q. jobs s q \<noteq> Some job" if "wait (heap s ! job) = 0" for job
    using map_facts [OF m, of _ job] that by auto
  have 1: "\<forall>job<length (heap s). wait (heap s ! job) = 0 \<longrightarrow>
        (\<forall>q. jobs s q \<noteq> Some job) \<and> Result (heap s ! job) \<noteq> None"
    using notin r unfolding results_ok_def by blast
  have 2: "\<forall>job<length (heap s). jobs s (Query (heap s ! job)) \<noteq> Some job \<longrightarrow>
        Result (heap s ! job) \<noteq> None"
    using r unfolding results_ok_def by blast
  have 3: "\<forall>t job. threads s t = work_delete job \<longrightarrow>
        mutex s = Some t \<and> Result (heap s ! job) \<noteq> None \<and> wait (heap s ! job) = 1"
  proof (intro allI impI)
    fix t job
    assume p: "threads s t = work_delete job"
    with worker_facts [OF w, of t job] mutex_holder [OF mu, of t]
    show "mutex s = Some t \<and> Result (heap s ! job) \<noteq> None \<and> wait (heap s ! job) = 1"
      by simp
  qed
  have 4: "\<forall>t job. threads s t = work_Done job \<longrightarrow>
        Result (heap s ! job) \<noteq> None \<and> (\<forall>q. jobs s q \<noteq> Some job) \<and> mutex s \<noteq> Some t \<and>
        wait (heap s ! job) = 1"
  proof (intro allI impI)
    fix t job
    assume p: "threads s t = work_Done job"
    with worker_facts [OF w, of t job] mu
    show "Result (heap s ! job) \<noteq> None \<and> (\<forall>q. jobs s q \<noteq> Some job) \<and> mutex s \<noteq> Some t \<and>
        wait (heap s ! job) = 1"
      by (auto simp: mutex_ok_def)
  qed
  have 5: "\<forall>t grp. threads s t = Wait_returned grp \<longrightarrow>
        (\<forall>job\<in>set grp. wait (heap s ! job) = 0 \<and> (\<forall>q. jobs s q \<noteq> Some job))"
  proof (intro allI impI ballI)
    fix t grp job
    assume p: "threads s t = Wait_returned grp" and j: "job \<in> set grp"
    from cl have "client_ok (heap s) (threads s t)" by (simp add: clients_def)
    with p j have "wait (heap s ! job) = 0" by (simp add: all_done_def)
    with notin show "wait (heap s ! job) = 0 \<and> (\<forall>q. jobs s q \<noteq> Some job)" by simp
  qed
  from 1 2 3 4 5 show ?thesis by blast
qed

theorem work_completes_in_order_witness:
  "(\<forall>q. jobs (run plain_lib lookup_and_wait NewDnsProcessor) q \<noteq> Some 0) \<and>
   Result (heap (run plain_lib lookup_and_wait NewDnsProcessor) ! 0) \<noteq> None \<and>
   mutex (run plain_lib (take 8 lookup_and_wait) NewDnsProcessor) = Some 1 \<and>
   Result (heap (run plain_lib (take 10 lookup_and_wait) NewDnsProcessor) ! 0) \<noteq> None \<and>
   (\<forall>q. jobs (run plain_lib (take 10 lookup_and_wait) NewDnsProcessor) q \<noteq> Some 0) \<and>
   wait (heap (run plain_lib (take 10 lookup_and_wait) NewDnsProcessor) ! 0) = 1"
proof -
  let ?s = "run plain_lib lookup_and_wait NewDnsProcessor"
  let ?d = "run plain_lib (take 8 lookup_and_wait) NewDnsProcessor"
  let ?e = "run plain_lib (take 10 lookup_and_wait) NewDnsProcessor"
  have s: "0 < length (heap ?s)" "wait (heap ?s ! 0) = 0" "threads ?s 0 = Wait_returned [0]"
    by (simp_all add: lookup_and_wait_def run_simps a_records_def Lookup_def lookupDns_def
          deref_def TypeA_def TypeTLSA_def RcodeNameError_def RcodeSuccess_def)
  have d: "threads ?d 1 = work_delete 0"
    by (simp add: lookup_and_wait_def run_simps a_records_def Lookup_def lookupDns_def
          deref_def TypeA_def TypeTLSA_def RcodeNameError_def RcodeSuccess_def)
  have e: "threads ?e 1 = work_Done 0"
    by (simp add: lookup_and_wait_def run_simps a_records_def Lookup_def lookupDns_def
          deref_def TypeA_def TypeTLSA_def RcodeNameError_def RcodeSuccess_def)
  note a = work_completes_in_order [OF refl, of plain_lib lookup_and_wait]
  note b = work_completes_in_order [OF refl, of plain_lib "take 8 lookup_and_wait"]
  note c = work_completes_in_order [OF refl, of plain_lib "take 10 lookup_and_wait"]
  from a s have "(\<forall>q. jobs ?s q \<noteq> Some 0) \<and> Result (heap ?s ! 0) \<noteq> None" by blast
  moreover from b d have "mutex ?d = Some 1" by blast
  moreover from c e have "Result (heap ?e ! 0) \<noteq> None \<and> (\<forall>q. jobs ?e q \<noteq> Some 0) \<and>
      wait (heap ?e ! 0) = 1" by blast
  ultimately show ?thesis by blast
qed


end
